theory Spec2Isabelle
  imports Main "HOL-Library.Sublist"
begin

section \<open>Strings\<close>

text \<open>
  A Python \<open>str\<close> is a sequence of Unicode code points, and every string operation of
  the importer (\<open>strip\<close>, \<open>startswith\<close>, slicing by \<open>len(LABEL)\<close>, \<open>splitlines\<close>,
  the regular expressions) counts code points. A string is therefore a list of code
  points, each a natural number.
\<close>

type_synonym ustr = "nat list"

text \<open>The markers of \<open>import_questions.py\<close>, lines 9 to 12, and the other literals.\<close>

definition LABEL_Q :: ustr where
  "LABEL_Q = [0x984C, 0x76EE, 0xFF1A]"

definition LABEL_YOUR :: ustr where
  "LABEL_YOUR = [0x4F60, 0x7684, 0x7B54, 0x6848, 0xFF1A]"

definition LABEL_CORRECT :: ustr where
  "LABEL_CORRECT = [0x6B63, 0x78BA, 0x7B54, 0x6848, 0xFF1A]"

definition LABEL_SCORE :: ustr where
  "LABEL_SCORE = [0x5F97, 0x5206, 0xFF1A]"

text \<open>The sentinel of an unanswered question (line 146), and the two question types
  (line 21).\<close>

definition UNANSWERED :: ustr where
  "UNANSWERED = [0x672A, 0x4F5C, 0x7B54]"

definition TYPE_FILL :: ustr where
  "TYPE_FILL = [0x586B, 0x7A7A, 0x984C]"

definition TYPE_CHOICE :: ustr where
  "TYPE_CHOICE = [0x9078, 0x64C7, 0x984C]"

text \<open>
  Whitespace as \<open>str.strip()\<close>, \<open>str.isspace()\<close> and the pattern \<open>\s\<close> of a \<open>str\<close>
  regular expression see it: the code points U+0009 to U+000D, U+001C to U+0020, U+0085,
  U+00A0, U+1680, U+2000 to U+200A, U+2028, U+2029, U+202F, U+205F and U+3000.
\<close>

definition is_space :: "nat \<Rightarrow> bool" where
  "is_space c =
     ((0x09 \<le> c \<and> c \<le> 0x0D) \<or> (0x1C \<le> c \<and> c \<le> 0x20) \<or> c = 0x85 \<or> c = 0xA0 \<or>
      c = 0x1680 \<or> (0x2000 \<le> c \<and> c \<le> 0x200A) \<or> c = 0x2028 \<or> c = 0x2029 \<or>
      c = 0x202F \<or> c = 0x205F \<or> c = 0x3000)"

text \<open>The line boundaries of \<open>str.splitlines()\<close>: LF, VT, FF, CR (and CR LF as one),
  FS, GS, RS, NEL, LS and PS.\<close>

definition is_linebreak :: "nat \<Rightarrow> bool" where
  "is_linebreak c =
     ((0x0A \<le> c \<and> c \<le> 0x0D) \<or> (0x1C \<le> c \<and> c \<le> 0x1E) \<or> c = 0x85 \<or>
      c = 0x2028 \<or> c = 0x2029)"

definition lstrip :: "ustr \<Rightarrow> ustr" where
  "lstrip s = dropWhile is_space s"

definition rstrip :: "ustr \<Rightarrow> ustr" where
  "rstrip s = rev (dropWhile is_space (rev s))"

definition strip :: "ustr \<Rightarrow> ustr" where
  "strip s = rstrip (lstrip s)"

text \<open>\<open>l.rstrip("\n")\<close>: only line feeds are removed from the right.\<close>

definition rstrip_nl :: "ustr \<Rightarrow> ustr" where
  "rstrip_nl s = rev (dropWhile (\<lambda>c. c = 0x0A) (rev s))"

definition startswith :: "ustr \<Rightarrow> ustr \<Rightarrow> bool" where
  "startswith s p = (take (length p) s = p)"

text \<open>
  \<open>str.splitlines()\<close> without \<open>keepends\<close>. The first argument is the line being read,
  reversed. A text that ends in a line boundary has no empty last line, and the empty
  text has no line.
\<close>

fun splitlines_from :: "ustr \<Rightarrow> ustr \<Rightarrow> ustr list" where
  "splitlines_from acc [] = (if acc = [] then [] else [rev acc])"
| "splitlines_from acc [c] =
     (if is_linebreak c then [rev acc] else [rev (c # acc)])"
| "splitlines_from acc (c # d # cs) =
     (if c = 0x0D \<and> d = 0x0A then rev acc # splitlines_from [] cs
      else if is_linebreak c then rev acc # splitlines_from [] (d # cs)
      else splitlines_from (c # acc) (d # cs))"

definition splitlines :: "ustr \<Rightarrow> ustr list" where
  "splitlines s = splitlines_from [] s"

section \<open>The block parser\<close>

text \<open>An entry is the dictionary with the keys \<open>question\<close>, \<open>your\<close> and \<open>correct\<close>
  that \<open>parse_blocks\<close> builds (line 61).\<close>

record entry =
  question :: ustr
  your :: "ustr list"
  correct :: "ustr list"

text \<open>\<open>flush\<close> (lines 45 to 49): the open entry, when there is one, is appended to the
  entries. The caller sets \<open>cur\<close> afterwards.\<close>

definition flush :: "entry option \<Rightarrow> entry list \<Rightarrow> entry list" where
  "flush cur entries = (case cur of None \<Rightarrow> entries | Some e \<Rightarrow> entries @ [e])"

text \<open>
  The inner loop of a your-answer block (lines 72 to 80), on the lines from index \<open>i\<close>
  on: it returns the answers and the lines that are left, the line that stopped it
  first.
\<close>

fun collect_your :: "ustr list \<Rightarrow> ustr list \<Rightarrow> ustr list \<times> ustr list" where
  "collect_your [] answers = (answers, [])"
| "collect_your (l # ls) answers =
     (let peek = strip l in
      if startswith peek LABEL_CORRECT \<or> startswith peek LABEL_Q \<or> startswith peek LABEL_SCORE
      then (answers, l # ls)
      else collect_your ls (if peek \<noteq> [] then answers @ [peek] else answers))"

text \<open>The inner loop of a correct-answer block (lines 91 to 99).\<close>

fun collect_correct :: "ustr list \<Rightarrow> ustr list \<Rightarrow> ustr list \<times> ustr list" where
  "collect_correct [] answers = (answers, [])"
| "collect_correct (l # ls) answers =
     (let peek = strip l in
      if startswith peek LABEL_Q \<or> startswith peek LABEL_SCORE \<or> startswith peek LABEL_YOUR
      then (answers, l # ls)
      else collect_correct ls (if peek \<noteq> [] then answers @ [peek] else answers))"

lemma collect_your_length: "length (snd (collect_your ls answers)) \<le> length ls"
  by (induction ls arbitrary: answers) (auto simp: Let_def le_SucI)

lemma collect_correct_length: "length (snd (collect_correct ls answers)) \<le> length ls"
  by (induction ls arbitrary: answers) (auto simp: Let_def le_SucI)

text \<open>
  The outer loop (lines 52 to 103) on the lines from index \<open>i\<close> on, with the open entry
  \<open>cur\<close> and the entries flushed so far; at the end of the lines, the last \<open>flush\<close>
  (line 105).
\<close>

function parse_loop :: "ustr list \<Rightarrow> entry option \<Rightarrow> entry list \<Rightarrow> entry list" where
  "parse_loop [] cur entries = flush cur entries"
| "parse_loop (raw # rest) cur entries =
     (let line = strip raw in
      if startswith line LABEL_Q then
        parse_loop rest
          (Some \<lparr>question = strip (drop (length LABEL_Q) line), your = [], correct = []\<rparr>)
          (flush cur entries)
      else if startswith line LABEL_YOUR \<and> cur \<noteq> None then
        (let r = strip (drop (length LABEL_YOUR) line);
             res = collect_your rest (if r \<noteq> [] then [r] else [])
         in parse_loop (snd res) (map_option (\<lambda>e. e\<lparr>your := fst res\<rparr>) cur) entries)
      else if startswith line LABEL_CORRECT \<and> cur \<noteq> None then
        (let r = strip (drop (length LABEL_CORRECT) line);
             res = collect_correct rest (if r \<noteq> [] then [r] else [])
         in parse_loop (snd res) (map_option (\<lambda>e. e\<lparr>correct := fst res\<rparr>) cur) entries)
      else parse_loop rest cur entries)"
  by pat_completeness auto
termination
  by (relation "measure (\<lambda>(ls, cur, entries). length ls)")
     (auto simp: le_imp_less_Suc collect_your_length collect_correct_length)

definition parse_blocks :: "ustr \<Rightarrow> entry list" where
  "parse_blocks text = parse_loop (map rstrip_nl (splitlines text)) None []"

section \<open>The platform\<close>

text \<open>
  Three facts about the platform are not in the repository and are taken as parameters:
  the Unicode character database beyond ASCII, as far as the patterns \<open>\w\<close> (through
  \<open>\b\<close>) and \<open>\d\<close> read it, and what SQLite does with the row id it had chosen for an
  insert that \<open>OR IGNORE\<close> then drops. The documentation of \<open>AUTOINCREMENT\<close> allows both:
  the row id of a failed insert "might not be reused".
\<close>

record platform =
  uni_alnum :: "nat \<Rightarrow> bool"
  uni_decimal :: "nat \<Rightarrow> nat option"
  burns_rowid :: bool

text \<open>The value of a decimal digit (\<open>\d\<close>, and what \<open>int\<close> reads), and the word
  characters of \<open>\w\<close>: alphanumeric or the underscore.\<close>

definition decimal_value :: "platform \<Rightarrow> nat \<Rightarrow> nat option" where
  "decimal_value pf c =
     (if 0x30 \<le> c \<and> c \<le> 0x39 then Some (c - 0x30)
      else if c < 0x80 then None
      else uni_decimal pf c)"

definition is_decimal :: "platform \<Rightarrow> nat \<Rightarrow> bool" where
  "is_decimal pf c = (decimal_value pf c \<noteq> None)"

definition is_word :: "platform \<Rightarrow> nat \<Rightarrow> bool" where
  "is_word pf c =
     (c = 0x5F \<or> is_decimal pf c \<or>
      (if c < 0x80 then (0x41 \<le> c \<and> c \<le> 0x5A) \<or> (0x61 \<le> c \<and> c \<le> 0x7A)
       else uni_alnum pf c))"

section \<open>The normalizer and the type classifier\<close>

text \<open>\<open>re.sub(r"\s+", " ", s)\<close>: every maximal run of whitespace becomes one space.\<close>

function re_sub_ws :: "ustr \<Rightarrow> ustr" where
  "re_sub_ws [] = []"
| "re_sub_ws (c # cs) =
     (if is_space c then 0x20 # re_sub_ws (dropWhile is_space cs) else c # re_sub_ws cs)"
  by pat_completeness auto
termination
  by (relation "measure length") (auto simp: le_imp_less_Suc length_dropWhile_le)

definition normalize_text :: "ustr \<Rightarrow> ustr" where
  "normalize_text s = re_sub_ws (strip s)"

text \<open>
  The pattern \<open>\[__\d+__\]\<close> at the start of a string: the bracket and two underscores,
  the longest run of digits (no shorter run can be followed by an underscore), which is
  not empty, then two underscores and the closing bracket.
\<close>

definition match_blank :: "platform \<Rightarrow> ustr \<Rightarrow> bool" where
  "match_blank pf s =
     (startswith s [0x5B, 0x5F, 0x5F] \<and>
      takeWhile (is_decimal pf) (drop 3 s) \<noteq> [] \<and>
      startswith (dropWhile (is_decimal pf) (drop 3 s)) [0x5F, 0x5F, 0x5D])"

fun re_search_blank :: "platform \<Rightarrow> ustr \<Rightarrow> bool" where
  "re_search_blank pf [] = False"
| "re_search_blank pf (c # cs) = (match_blank pf (c # cs) \<or> re_search_blank pf cs)"

definition detect_type :: "platform \<Rightarrow> ustr \<Rightarrow> ustr" where
  "detect_type pf q = (if re_search_blank pf q then TYPE_FILL else TYPE_CHOICE)"

section \<open>The chapter resolver\<close>

text \<open>
  A \<open>pathlib\<close> path of the POSIX flavour: its root (\<open>/\<close>, \<open>//\<close> or empty) and the
  components after it. \<open>parts\<close> has the root first when there is one; \<open>name\<close> is the
  last component, empty when there is none; \<open>stem\<close> cuts the last suffix off the name
  when the last dot is neither its first nor its last character.
\<close>

record path =
  root :: ustr
  tail :: "ustr list"

definition parts :: "path \<Rightarrow> ustr list" where
  "parts p = (if root p = [] then [] else [root p]) @ tail p"

definition name :: "path \<Rightarrow> ustr" where
  "name p = (if tail p = [] then [] else last (tail p))"

text \<open>\<open>str.rfind\<close>: the index of the last occurrence, none for Python's \<open>-1\<close>.\<close>

fun rfind :: "ustr \<Rightarrow> nat \<Rightarrow> nat option" where
  "rfind [] c = None"
| "rfind (x # xs) c =
     (case rfind xs c of
        Some i \<Rightarrow> Some (Suc i)
      | None \<Rightarrow> if x = c then Some 0 else None)"

definition stem :: "path \<Rightarrow> ustr" where
  "stem p =
     (case rfind (name p) 0x2E of
        None \<Rightarrow> name p
      | Some i \<Rightarrow> if 0 < i \<and> Suc i < length (name p) then take i (name p) else name p)"

text \<open>\<open>str.split("/")\<close>, and \<open>Path(s)\<close> for a string: the leading slashes make the
  root (exactly two are kept as \<open>//\<close>), and the empty components and the components
  \<open>.\<close> are dropped.\<close>

fun split_sep :: "ustr \<Rightarrow> ustr \<Rightarrow> ustr list" where
  "split_sep acc [] = [rev acc]"
| "split_sep acc (c # cs) =
     (if c = 0x2F then rev acc # split_sep [] cs else split_sep (c # acc) cs)"

definition Path :: "ustr \<Rightarrow> path" where
  "Path s =
     (let stripped = dropWhile (\<lambda>c. c = 0x2F) s;
          n = length s - length stripped
      in \<lparr>root = (if n = 0 then [] else if n = 2 then [0x2F, 0x2F] else [0x2F]),
          tail = filter (\<lambda>x. x \<noteq> [] \<and> x \<noteq> [0x2E]) (split_sep [] stripped)\<rparr>)"

text \<open>\<open>str(path)\<close>.\<close>

fun join_sep :: "ustr list \<Rightarrow> ustr" where
  "join_sep [] = []"
| "join_sep [x] = x"
| "join_sep (x # y # ys) = x @ 0x2F # join_sep (y # ys)"

definition str_path :: "path \<Rightarrow> ustr" where
  "str_path p = (let s = root p @ join_sep (tail p) in if s = [] then [0x2E] else s)"

text \<open>
  The pattern \<open>\bch(\d{1,2})\b\<close> with \<open>re.IGNORECASE\<close> at one position of a string;
  \<open>prev\<close> says whether the character before the position is a word character. The
  result is \<open>int(m.group(1))\<close>. Two digits are tried first, then one; the boundary after
  the digits holds at the end of the string or before a character that is not a word
  character.
\<close>

definition boundary_after :: "platform \<Rightarrow> ustr \<Rightarrow> bool" where
  "boundary_after pf r = (case r of [] \<Rightarrow> True | x # _ \<Rightarrow> \<not> is_word pf x)"

definition match_ch :: "platform \<Rightarrow> bool \<Rightarrow> ustr \<Rightarrow> nat option" where
  "match_ch pf prev s =
     (case s of
        c # h # d1 # r \<Rightarrow>
          if prev \<or> \<not> (c = 0x63 \<or> c = 0x43) \<or> \<not> (h = 0x68 \<or> h = 0x48) then None
          else
            (case decimal_value pf d1 of
               None \<Rightarrow> None
             | Some v1 \<Rightarrow>
                 (case (case r of
                          d2 # r2 \<Rightarrow>
                            (case decimal_value pf d2 of
                               Some v2 \<Rightarrow> if boundary_after pf r2 then Some (10 * v1 + v2) else None
                             | None \<Rightarrow> None)
                        | [] \<Rightarrow> None) of
                    Some n \<Rightarrow> Some n
                  | None \<Rightarrow> if boundary_after pf r then Some v1 else None))
      | _ \<Rightarrow> None)"

text \<open>\<open>re.search\<close>: the leftmost position where the pattern matches.\<close>

fun re_search_ch :: "platform \<Rightarrow> bool \<Rightarrow> ustr \<Rightarrow> nat option" where
  "re_search_ch pf prev [] = None"
| "re_search_ch pf prev (c # cs) =
     (case match_ch pf prev (c # cs) of
        Some n \<Rightarrow> Some n
      | None \<Rightarrow> re_search_ch pf (is_word pf c) cs)"

text \<open>\<open>str(n)\<close> of a natural number, for the f-string of line 32.\<close>

function str_nat :: "nat \<Rightarrow> ustr" where
  "str_nat n = (if n < 10 then [0x30 + n] else str_nat (n div 10) @ [0x30 + n mod 10])"
  by pat_completeness auto
termination
  by (relation "measure id") auto

text \<open>The loop of \<open>determine_chapter\<close> (lines 27 to 32) over the parts that are left;
  none when the loop ends without a return.\<close>

fun chapter_of_parts :: "platform \<Rightarrow> ustr list \<Rightarrow> ustr option" where
  "chapter_of_parts pf [] = None"
| "chapter_of_parts pf (part # rest) =
     (case re_search_ch pf False part of
        Some n \<Rightarrow> if n \<le> 10 then Some ([0x63, 0x68] @ str_nat n) else chapter_of_parts pf rest
      | None \<Rightarrow> chapter_of_parts pf rest)"

definition UNKNOWN :: ustr where
  "UNKNOWN = [0x75, 0x6E, 0x6B, 0x6E, 0x6F, 0x77, 0x6E]"

text \<open>\<open>fallback if fallback else "unknown"\<close>: \<open>None\<close> and the empty string are both
  false.\<close>

definition determine_chapter :: "platform \<Rightarrow> path \<Rightarrow> ustr option \<Rightarrow> ustr" where
  "determine_chapter pf p fallback =
     (case chapter_of_parts pf (stem p # rev (parts p)) of
        Some ch \<Rightarrow> ch
      | None \<Rightarrow>
          (case fallback of
             None \<Rightarrow> UNKNOWN
           | Some f \<Rightarrow> if f \<noteq> [] then f else UNKNOWN))"

section \<open>The store\<close>

text \<open>
  The two tables of the \<open>DDL\<close> (lines 108 to 129), each a list of rows in insertion
  order, and the two entries of \<open>sqlite_sequence\<close> that \<open>AUTOINCREMENT\<close> keeps: the
  largest row id each table has used.
\<close>

record question_row =
  q_id :: nat
  q_chapter :: ustr
  q_text :: ustr
  q_text_norm :: ustr
  q_type :: ustr
  q_source_file :: ustr
  q_created_at :: nat

record answer_row =
  a_id :: nat
  a_question_id :: nat
  a_position :: nat
  a_answer_text :: ustr
  a_created_at :: nat

record store =
  questions :: "question_row list"
  answers :: "answer_row list"
  seq_questions :: nat
  seq_answers :: nat

definition empty_store :: store where
  "empty_store = \<lparr>questions = [], answers = [], seq_questions = 0, seq_answers = 0\<rparr>"

text \<open>The row id of a new row: one more than the largest the table has ever used.\<close>

definition next_rowid :: "nat \<Rightarrow> nat list \<Rightarrow> nat" where
  "next_rowid seq ids = Suc (max seq (fold max ids 0))"

text \<open>\<open>SELECT id FROM questions WHERE chapter=? AND q_text_norm=?\<close> and \<open>fetchone\<close>
  (lines 164 to 168); the same search decides the conflict on
  \<open>UNIQUE(chapter, q_text_norm)\<close>.\<close>

definition find_question :: "store \<Rightarrow> ustr \<Rightarrow> ustr \<Rightarrow> question_row option" where
  "find_question s chapter q_norm =
     find (\<lambda>r. q_chapter r = chapter \<and> q_text_norm r = q_norm) (questions s)"

definition find_answer :: "store \<Rightarrow> nat \<Rightarrow> nat \<Rightarrow> ustr \<Rightarrow> answer_row option" where
  "find_answer s qid pos txt =
     find (\<lambda>a. a_question_id a = qid \<and> a_position a = pos \<and> a_answer_text a = txt) (answers s)"

text \<open>
  \<open>INSERT OR IGNORE INTO questions\<close> (lines 154 to 158) at the time \<open>now\<close>. The result
  is the store and \<open>Some\<close> of \<open>lastrowid\<close> when \<open>rowcount\<close> is 1, \<open>None\<close> when the row
  was ignored and \<open>rowcount\<close> is 0.
\<close>

definition insert_or_ignore_question ::
  "platform \<Rightarrow> nat \<Rightarrow> store \<Rightarrow> ustr \<Rightarrow> ustr \<Rightarrow> ustr \<Rightarrow> ustr \<Rightarrow> ustr \<Rightarrow> store \<times> nat option" where
  "insert_or_ignore_question pf now s chapter q q_norm qt source_file =
     (let rid = next_rowid (seq_questions s) (map q_id (questions s)) in
      case find_question s chapter q_norm of
        Some r \<Rightarrow> (if burns_rowid pf then s\<lparr>seq_questions := rid\<rparr> else s, None)
      | None \<Rightarrow>
          (s\<lparr>questions := questions s @
                [\<lparr>q_id = rid, q_chapter = chapter, q_text = q, q_text_norm = q_norm,
                  q_type = qt, q_source_file = source_file, q_created_at = now\<rparr>],
              seq_questions := rid\<rparr>,
           Some rid))"

text \<open>\<open>INSERT OR IGNORE INTO answers\<close> (lines 178 to 182); the result says whether
  \<open>rowcount\<close> is 1.\<close>

definition insert_or_ignore_answer ::
  "platform \<Rightarrow> nat \<Rightarrow> store \<Rightarrow> nat \<Rightarrow> nat \<Rightarrow> ustr \<Rightarrow> store \<times> bool" where
  "insert_or_ignore_answer pf now s qid pos txt =
     (let rid = next_rowid (seq_answers s) (map a_id (answers s)) in
      case find_answer s qid pos txt of
        Some a \<Rightarrow> (if burns_rowid pf then s\<lparr>seq_answers := rid\<rparr> else s, False)
      | None \<Rightarrow>
          (s\<lparr>answers := answers s @
                [\<lparr>a_id = rid, a_question_id = qid, a_position = pos, a_answer_text = txt,
                  a_created_at = now\<rparr>],
              seq_answers := rid\<rparr>,
           True))"

section \<open>The upsert engine\<close>

record stats =
  inserted_questions :: nat
  duplicates_skipped :: nat
  skipped_unanswered :: nat
  inserted_answers :: nat

definition zero_stats :: stats where
  "zero_stats =
     \<lparr>inserted_questions = 0, duplicates_skipped = 0, skipped_unanswered = 0,
      inserted_answers = 0\<rparr>"

text \<open>\<open>enumerate(correct, start=1)\<close>.\<close>

definition enumerate1 :: "'a list \<Rightarrow> (nat \<times> 'a) list" where
  "enumerate1 xs = zip [1 ..< Suc (length xs)] xs"

text \<open>The loop over the answers (lines 177 to 184).\<close>

fun insert_answers ::
  "platform \<Rightarrow> nat \<Rightarrow> nat \<Rightarrow> (nat \<times> ustr) list \<Rightarrow> store \<times> stats \<Rightarrow> store \<times> stats" where
  "insert_answers pf now qid [] sc = sc"
| "insert_answers pf now qid ((idx, ans) # rest) (s, c) =
     (let (s', inserted) = insert_or_ignore_answer pf now s qid idx ans
      in insert_answers pf now qid rest
           (s', if inserted then c\<lparr>inserted_answers := inserted_answers c + 1\<rparr> else c))"

text \<open>The list \<open>correct\<close> of line 143, and the test of line 146.\<close>

definition surviving :: "entry \<Rightarrow> ustr list" where
  "surviving e = map strip (filter (\<lambda>a. strip a \<noteq> []) (correct e))"

definition unanswered :: "ustr list \<Rightarrow> bool" where
  "unanswered cs = (length cs = 0 \<or> (length cs = 1 \<and> cs ! 0 = UNANSWERED))"

text \<open>The body of the loop over the entries (lines 142 to 184), on the store and the
  four counters.\<close>

definition upsert_entry ::
  "platform \<Rightarrow> nat \<Rightarrow> ustr \<Rightarrow> ustr \<Rightarrow> store \<times> stats \<Rightarrow> entry \<Rightarrow> store \<times> stats" where
  "upsert_entry pf now chapter source_file sc e =
     (let s = fst sc; c = snd sc;
          q = strip (question e);
          cs = surviving e
      in if unanswered cs then (s, c\<lparr>skipped_unanswered := skipped_unanswered c + 1\<rparr>)
         else
           (let q_norm = normalize_text q;
                qt = detect_type pf q;
                (s1, inserted) = insert_or_ignore_question pf now s chapter q q_norm qt source_file
            in case inserted of
                 Some lastrowid \<Rightarrow>
                   insert_answers pf now lastrowid (enumerate1 cs)
                     (s1, c\<lparr>inserted_questions := inserted_questions c + 1\<rparr>)
               | None \<Rightarrow>
                   (case find_question s1 chapter q_norm of
                      None \<Rightarrow> (s1, c\<lparr>duplicates_skipped := duplicates_skipped c + 1\<rparr>)
                    | Some row \<Rightarrow>
                        insert_answers pf now (q_id row) (enumerate1 cs)
                          (s1, c\<lparr>duplicates_skipped := duplicates_skipped c + 1\<rparr>))))"

fun upsert_loop ::
  "platform \<Rightarrow> nat \<Rightarrow> ustr \<Rightarrow> ustr \<Rightarrow> entry list \<Rightarrow> store \<times> stats \<Rightarrow> store \<times> stats" where
  "upsert_loop pf now chapter source_file [] sc = sc"
| "upsert_loop pf now chapter source_file (e # es) sc =
     upsert_loop pf now chapter source_file es (upsert_entry pf now chapter source_file sc e)"

text \<open>
  \<open>upsert_entries\<close> (lines 131 to 193), and \<open>import_questions_from_entries\<close> of
  \<open>web_app.py\<close> (lines 313 to 376), which is the same code: the counters start at zero,
  and the store and the counters after the loop are returned. The tables exist (the
  \<open>DDL\<close> creates them only if they do not).
\<close>

definition upsert_entries ::
  "platform \<Rightarrow> nat \<Rightarrow> store \<Rightarrow> entry list \<Rightarrow> ustr \<Rightarrow> ustr \<Rightarrow> store \<times> stats" where
  "upsert_entries pf now s entries chapter source_file =
     upsert_loop pf now chapter source_file entries (s, zero_stats)"

section \<open>The entry points\<close>

text \<open>
  The bytes of a file are given by the code points they encode under plain UTF-8, the
  malformed bytes left out as \<open>errors="ignore"\<close> leaves them out; a byte-order mark is
  then a leading U+FEFF. The codec \<open>utf-8\<close> keeps it, the codec \<open>utf-8-sig\<close> removes
  one.
\<close>

datatype encoding = UTF8 | UTF8_SIG

definition BOM :: nat where
  "BOM = 0xFEFF"

definition decode :: "encoding \<Rightarrow> ustr \<Rightarrow> ustr" where
  "decode enc blob =
     (case enc of
        UTF8 \<Rightarrow> blob
      | UTF8_SIG \<Rightarrow> (case blob of [] \<Rightarrow> [] | c # cs \<Rightarrow> if c = BOM then cs else blob))"

text \<open>
  The body of the loop of \<open>main\<close> (\<open>import_questions.py\<close>, lines 221 to 225) for one
  file \<open>f\<close> with the bytes \<open>blob\<close>: \<open>enc\<close> is \<open>args.encoding\<close>, whose default is
  \<open>utf-8\<close>, and \<open>fallback\<close> is \<open>args.chapter\<close>.
\<close>

definition import_file ::
  "platform \<Rightarrow> nat \<Rightarrow> store \<Rightarrow> encoding \<Rightarrow> ustr option \<Rightarrow> path \<Rightarrow> ustr \<Rightarrow> store \<times> stats" where
  "import_file pf now s enc fallback f blob =
     (let chapter = determine_chapter pf f fallback;
          text = decode enc blob;
          entries = parse_blocks text
      in upsert_entries pf now s entries chapter (str_path f))"

text \<open>
  \<open>import_questions\<close> of \<open>web_app.py\<close>: the content of an uploaded file (line 471) and
  of the text field (line 451), and what follows for a content and a validated, lower-case
  chapter (lines 481 to 491). No counters are returned when the content is empty or has
  no entry.
\<close>

definition upload_content :: "ustr \<Rightarrow> ustr" where
  "upload_content blob = decode UTF8_SIG blob"

definition text_content :: "ustr \<Rightarrow> ustr" where
  "text_content field = strip field"

definition web_import ::
  "platform \<Rightarrow> nat \<Rightarrow> store \<Rightarrow> ustr \<Rightarrow> ustr \<Rightarrow> ustr \<Rightarrow> store \<times> stats option" where
  "web_import pf now s chapter source_info content =
     (if content = [] then (s, None)
      else
        (let entries = parse_blocks content in
         if entries = [] then (s, None)
         else
           (let r = upsert_entries pf now s entries chapter source_info
            in (fst r, Some (snd r)))))"

section \<open>Notions for the statements\<close>

text \<open>The dedup key of an entry: \<open>normalize_text(q)\<close> of lines 142 and 150.\<close>

definition entry_key :: "entry \<Rightarrow> ustr" where
  "entry_key e = normalize_text (strip (question e))"

text \<open>The row that line 157 inserts for an entry.\<close>

definition new_question :: "platform \<Rightarrow> nat \<Rightarrow> store \<Rightarrow> ustr \<Rightarrow> ustr \<Rightarrow> entry \<Rightarrow> question_row" where
  "new_question pf now s chapter source_file e =
     \<lparr>q_id = next_rowid (seq_questions s) (map q_id (questions s)), q_chapter = chapter,
      q_text = strip (question e), q_text_norm = entry_key e,
      q_type = detect_type pf (strip (question e)), q_source_file = source_file,
      q_created_at = now\<rparr>"

text \<open>A row of \<open>answers\<close> with this question, position and text exists.\<close>

definition has_answer :: "store \<Rightarrow> nat \<Rightarrow> nat \<Rightarrow> ustr \<Rightarrow> bool" where
  "has_answer s qid pos txt = (find_answer s qid pos txt \<noteq> None)"

text \<open>Every numbered answer of a list has its row.\<close>

definition answers_present :: "store \<Rightarrow> nat \<Rightarrow> (nat \<times> ustr) list \<Rightarrow> bool" where
  "answers_present s qid ias = list_all (\<lambda>(i, a). has_answer s qid i a) ias"

text \<open>An entry is covered by a store when importing it can add no row: it is unanswered, or
  its question has a row in the chapter and every numbered answer has a row under that
  question.\<close>

definition covered :: "store \<Rightarrow> ustr \<Rightarrow> entry \<Rightarrow> bool" where
  "covered s chapter e =
     (unanswered (surviving e) \<or>
      (case find_question s chapter (entry_key e) of
         None \<Rightarrow> False
       | Some r \<Rightarrow> answers_present s (q_id r) (enumerate1 (surviving e))))"

text \<open>A store grows into another when both tables only gain rows at the end.\<close>

definition grows :: "store \<Rightarrow> store \<Rightarrow> bool" where
  "grows s s' = (prefix (questions s) (questions s') \<and> prefix (answers s) (answers s'))"

text \<open>The foreign key of \<open>answers\<close>: every answer belongs to a question of the store.\<close>

definition fk_ok :: "store \<Rightarrow> bool" where
  "fk_ok s = list_all (\<lambda>a. a_question_id a \<in> set (map q_id (questions s))) (answers s)"

text \<open>The columns of an answer row that the unique index covers.\<close>

definition answer_triple :: "answer_row \<Rightarrow> nat \<times> nat \<times> ustr" where
  "answer_triple a = (a_question_id a, a_position a, a_answer_text a)"

text \<open>The rows of \<open>questions\<close> with a chapter and a dedup key; the unique index allows
  at most one.\<close>

definition key_rows :: "store \<Rightarrow> ustr \<Rightarrow> ustr \<Rightarrow> question_row list" where
  "key_rows s chapter q_norm =
     filter (\<lambda>r. q_chapter r = chapter \<and> q_text_norm r = q_norm) (questions s)"




text \<open>
  The lines of a text as \<open>parse_blocks\<close> reads them (line 41); the four kinds of marker
  lines, tested on the stripped line as the parser does; a marker line; and the question
  text that a question line carries (line 60).
\<close>

definition text_lines :: "ustr \<Rightarrow> ustr list" where
  "text_lines text = map rstrip_nl (splitlines text)"

definition is_question_line :: "ustr \<Rightarrow> bool" where
  "is_question_line l = startswith (strip l) LABEL_Q"

definition is_your_line :: "ustr \<Rightarrow> bool" where
  "is_your_line l = startswith (strip l) LABEL_YOUR"

definition is_correct_line :: "ustr \<Rightarrow> bool" where
  "is_correct_line l = startswith (strip l) LABEL_CORRECT"

definition is_score_line :: "ustr \<Rightarrow> bool" where
  "is_score_line l = startswith (strip l) LABEL_SCORE"

definition marker_line :: "ustr \<Rightarrow> bool" where
  "marker_line l = (is_question_line l \<or> is_your_line l \<or> is_correct_line l \<or> is_score_line l)"

definition question_payload :: "ustr \<Rightarrow> ustr" where
  "question_payload l = strip (drop (length LABEL_Q) (strip l))"

text \<open>
  The lines that end a block of your answers (line 74) and a block of correct answers
  (line 93); the answers that a list of lines gives, each line stripped and the blank
  ones left out (lines 69, 78, 88 and 97); and the text after the marker on a your-answer
  line and on a correct-answer line.
\<close>

definition your_stop :: "ustr \<Rightarrow> bool" where
  "your_stop l = (is_correct_line l \<or> is_question_line l \<or> is_score_line l)"

definition correct_stop :: "ustr \<Rightarrow> bool" where
  "correct_stop l = (is_question_line l \<or> is_score_line l \<or> is_your_line l)"

definition answer_lines :: "ustr list \<Rightarrow> ustr list" where
  "answer_lines ls = filter (\<lambda>a. a \<noteq> []) (map strip ls)"

definition your_payload :: "ustr \<Rightarrow> ustr" where
  "your_payload l = drop (length LABEL_YOUR) (strip l)"

definition correct_payload :: "ustr \<Rightarrow> ustr" where
  "correct_payload l = drop (length LABEL_CORRECT) (strip l)"

section \<open>Whitespace layout\<close>

text \<open>
  The tokens of a string are its maximal runs of characters that are not whitespace, as
  \<open>str.split()\<close> returns them. Two strings differ only in whitespace layout when they
  have the same tokens: the whitespace between two tokens, before the first and after the
  last may be any run of spaces, tabs and line breaks. \<open>join_space\<close> is
  \<open>" ".join\<close>.
\<close>

lemma tokens_termination_aux:
  assumes "dropWhile is_space s \<noteq> []"
  shows "length (dropWhile (\<lambda>c. \<not> is_space c) (dropWhile is_space s)) < length s"
proof -
  obtain c cs where r: "dropWhile is_space s = c # cs"
    using assms by (cases "dropWhile is_space s") auto
  from hd_dropWhile[OF assms] have "\<not> is_space c" by (simp add: r)
  then have "dropWhile (\<lambda>c. \<not> is_space c) (c # cs) = dropWhile (\<lambda>c. \<not> is_space c) cs"
    by simp
  moreover have "length (dropWhile (\<lambda>c. \<not> is_space c) cs) \<le> length cs"
    by (rule length_dropWhile_le)
  moreover have "length (c # cs) \<le> length s"
    unfolding r[symmetric] by (rule length_dropWhile_le)
  ultimately show ?thesis unfolding r by simp
qed

function tokens :: "ustr \<Rightarrow> ustr list" where
  "tokens s =
     (let r = dropWhile is_space s in
      if r = [] then []
      else takeWhile (\<lambda>c. \<not> is_space c) r # tokens (dropWhile (\<lambda>c. \<not> is_space c) r))"
  by pat_completeness auto
termination
  by (relation "measure length") (auto simp: tokens_termination_aux)

fun join_space :: "ustr list \<Rightarrow> ustr" where
  "join_space [] = []"
| "join_space [t] = t"
| "join_space (t # u # us) = t @ 0x20 # join_space (u # us)"

declare tokens.simps [simp del]

section \<open>Concrete inputs\<close>

text \<open>A platform whose tables know no letter and no digit beyond ASCII, two entries, two
  chapter tags and a source label, for the instances below.\<close>

definition ascii_platform :: platform where
  "ascii_platform = \<lparr>uni_alnum = (\<lambda>c. False), uni_decimal = (\<lambda>c. None), burns_rowid = True\<rparr>"

definition entry_os :: entry where
  "entry_os =
     \<lparr>question = [0x4F5C, 0x696D, 0x7CFB, 0x7D71, 0x7684, 0x4E3B, 0x8981, 0x529F, 0x80FD, 0x662F, 0xFF1F],
      your = [[0x41]],
      correct = [[0x41], [0x7BA1, 0x7406, 0x786C, 0x9AD4, 0x8CC7, 0x6E90]]\<rparr>"

definition entry_paging :: entry where
  "entry_paging =
     \<lparr>question = [0x5B, 0x5F, 0x5F, 0x31, 0x5F, 0x5F, 0x5D, 0x662F, 0x5206, 0x9801, 0x6A5F, 0x5236],
      your = [],
      correct = [[0x672A, 0x4F5C, 0x7B54]]\<rparr>"

definition ch1 :: ustr where
  "ch1 = [0x63, 0x68, 0x31]"

definition ch2 :: ustr where
  "ch2 = [0x63, 0x68, 0x32]"

definition notes_txt :: ustr where
  "notes_txt = [0x6E, 0x6F, 0x74, 0x65, 0x73, 0x2E, 0x74, 0x78, 0x74]"

text \<open>The text of the end-to-end example of the specification: its seven lines, joined by
  line feeds as \<open>"\n".join\<close> joins them.\<close>

fun join_nl :: "ustr list \<Rightarrow> ustr" where
  "join_nl [] = []"
| "join_nl [l] = l"
| "join_nl (l # m # ls) = l @ 0x0A # join_nl (m # ls)"

definition example_lines :: "ustr list" where
  "example_lines =
     [[0x984C, 0x76EE, 0xFF1A, 0x4F5C, 0x696D, 0x7CFB, 0x7D71, 0x7684, 0x4E3B, 0x8981, 0x529F,
       0x80FD, 0x662F, 0xFF1F],
      [0x4F60, 0x7684, 0x7B54, 0x6848, 0xFF1A, 0x41],
      [0x6B63, 0x78BA, 0x7B54, 0x6848, 0xFF1A, 0x41],
      [0x7BA1, 0x7406, 0x786C, 0x9AD4, 0x8CC7, 0x6E90],
      [],
      [0x984C, 0x76EE, 0xFF1A, 0x5B, 0x5F, 0x5F, 0x31, 0x5F, 0x5F, 0x5D, 0x662F, 0x5206, 0x9801,
       0x6A5F, 0x5236],
      [0x6B63, 0x78BA, 0x7B54, 0x6848, 0xFF1A, 0x672A, 0x4F5C, 0x7B54]]"

definition example_text :: ustr where
  "example_text = join_nl example_lines"



text \<open>Two entries whose questions have the same two tokens and different whitespace.\<close>

definition entry_layout1 :: entry where
  "entry_layout1 = \<lparr>question = [0x20, 0x4F5C, 0x20, 0x20, 0x696D], your = [], correct = [[0x41]]\<rparr>"

definition entry_layout2 :: entry where
  "entry_layout2 = \<lparr>question = [0x4F5C, 0x09, 0x696D, 0x0A], your = [], correct = [[0x42]]\<rparr>"



text \<open>The fourth line of the example, which has no marker.\<close>

definition plain_line :: ustr where
  "plain_line = [0x7BA1, 0x7406, 0x786C, 0x9AD4, 0x8CC7, 0x6E90]"

section \<open>Lemmas on the store and the upsert engine\<close>

lemma find_append_case:
  "find P (xs @ ys) = (case find P xs of None \<Rightarrow> find P ys | Some x \<Rightarrow> Some x)"
  by (induction xs) auto

lemma find_prefix_Some: "find P xs = Some x \<Longrightarrow> prefix xs ys \<Longrightarrow> find P ys = Some x"
  by (auto simp: prefix_def find_append_case)

lemma grows_refl: "grows s s" by (simp add: grows_def)

lemma grows_trans: "grows s s' \<Longrightarrow> grows s' s'' \<Longrightarrow> grows s s''"
  by (auto simp: grows_def)

lemma has_answer_grows: "has_answer s qid i a \<Longrightarrow> grows s s' \<Longrightarrow> has_answer s' qid i a"
  by (auto simp: has_answer_def find_answer_def grows_def dest: find_prefix_Some)

lemma find_question_grows: "find_question s ch k = Some r \<Longrightarrow> grows s s' \<Longrightarrow> find_question s' ch k = Some r"
  by (auto simp: find_question_def grows_def dest: find_prefix_Some)

lemma answers_present_grows: "answers_present s qid ias \<Longrightarrow> grows s s' \<Longrightarrow> answers_present s' qid ias"
  by (auto simp: answers_present_def list_all_iff dest: has_answer_grows)

lemma covered_grows:
  assumes "covered s ch e" and "grows s s'"
  shows "covered s' ch e"
proof (cases "unanswered (surviving e)")
  case True
  then show ?thesis by (simp add: covered_def)
next
  case False
  with assms obtain r where r: "find_question s ch (entry_key e) = Some r"
    and p: "answers_present s (q_id r) (enumerate1 (surviving e))"
    by (auto simp: covered_def split: option.splits)
  from find_question_grows[OF r assms(2)] answers_present_grows[OF p assms(2)]
  show ?thesis by (simp add: covered_def)
qed

lemma ioi_answer_grows: "grows s (fst (insert_or_ignore_answer pf now s qid pos txt))"
  by (simp add: insert_or_ignore_answer_def grows_def Let_def split: option.splits)

lemma ioi_answer_questions: "questions (fst (insert_or_ignore_answer pf now s qid pos txt)) = questions s"
  by (simp add: insert_or_ignore_answer_def Let_def split: option.splits)

lemma ioi_answer_found: "has_answer (fst (insert_or_ignore_answer pf now s qid pos txt)) qid pos txt"
  by (auto simp add: has_answer_def insert_or_ignore_answer_def Let_def find_answer_def find_append_case split: option.splits)

lemma ioi_answer_present:
  "has_answer s qid pos txt \<Longrightarrow>
   answers (fst (insert_or_ignore_answer pf now s qid pos txt)) = answers s \<and>
   snd (insert_or_ignore_answer pf now s qid pos txt) = False"
  by (auto simp add: has_answer_def insert_or_ignore_answer_def Let_def split: option.splits)

lemma insert_answers_grows: "grows (fst sc) (fst (insert_answers pf now qid ias sc))"
proof (induction ias arbitrary: sc)
  case Nil
  then show ?case by (simp add: grows_refl)
next
  case (Cons ia ias)
  obtain i a where ia: "ia = (i, a)" by (cases ia)
  obtain s c where sc: "sc = (s, c)" by (cases sc)
  show ?case
    using Cons.IH ioi_answer_grows[of s pf now qid i a]
    by (auto simp: ia sc split: prod.splits intro: grows_trans)
qed

lemma insert_answers_questions: "questions (fst (insert_answers pf now qid ias sc)) = questions (fst sc)"
proof (induction ias arbitrary: sc)
  case Nil
  then show ?case by simp
next
  case (Cons ia ias)
  obtain i a where ia: "ia = (i, a)" by (cases ia)
  obtain s c where sc: "sc = (s, c)" by (cases sc)
  show ?case
    using Cons.IH ioi_answer_questions[of pf now s qid i a]
    by (auto simp: ia sc split: prod.splits)
qed

lemma insert_answers_present: "answers_present (fst (insert_answers pf now qid ias sc)) qid ias"
proof (induction ias arbitrary: sc)
  case Nil
  then show ?case by (simp add: answers_present_def)
next
  case (Cons ia ias)
  obtain i a where ia: "ia = (i, a)" by (cases ia)
  obtain s c where sc: "sc = (s, c)" by (cases sc)
  obtain s' b where r: "insert_or_ignore_answer pf now s qid i a = (s', b)" by force
  let ?sc' = "(s', if b then c\<lparr>inserted_answers := inserted_answers c + 1\<rparr> else c)"
  have step: "insert_answers pf now qid (ia # ias) sc = insert_answers pf now qid ias ?sc'"
    by (simp add: ia sc r)
  have "has_answer s' qid i a"
    using ioi_answer_found[of pf now s qid i a] by (simp add: r)
  moreover have "grows s' (fst (insert_answers pf now qid ias ?sc'))"
    using insert_answers_grows[of ?sc' pf now qid ias] by simp
  ultimately have "has_answer (fst (insert_answers pf now qid ias ?sc')) qid i a"
    by (rule has_answer_grows)
  with Cons.IH[of ?sc'] show ?case
    unfolding step by (simp add: answers_present_def ia)
qed

lemma insert_answers_covered:
  "answers_present (fst sc) qid ias \<Longrightarrow>
   answers (fst (insert_answers pf now qid ias sc)) = answers (fst sc) \<and>
   snd (insert_answers pf now qid ias sc) = snd sc"
proof (induction ias arbitrary: sc)
  case Nil
  then show ?case by simp
next
  case (Cons ia ias)
  obtain i a where ia: "ia = (i, a)" by (cases ia)
  obtain s c where sc: "sc = (s, c)" by (cases sc)
  obtain s' b where r: "insert_or_ignore_answer pf now s qid i a = (s', b)" by force
  from Cons.prems have p: "has_answer s qid i a" and rest: "answers_present s qid ias"
    by (auto simp: answers_present_def ia sc)
  from ioi_answer_present[OF p, of pf now] have s': "answers s' = answers s" and b: "\<not> b"
    by (auto simp: r)
  have "grows s s'" using ioi_answer_grows[of s pf now qid i a] by (simp add: r)
  with rest have "answers_present s' qid ias" by (rule answers_present_grows)
  with Cons.IH[of "(s', c)"] show ?case
    by (simp add: ia sc r b s')
qed

lemma upsert_entry_unanswered:
  "unanswered (surviving e) \<Longrightarrow>
   upsert_entry pf now ch src (s, c) e = (s, c\<lparr>skipped_unanswered := skipped_unanswered c + 1\<rparr>)"
  by (simp add: upsert_entry_def)

lemma upsert_entry_new:
  "\<not> unanswered (surviving e) \<Longrightarrow> find_question s ch (entry_key e) = None \<Longrightarrow>
   upsert_entry pf now ch src (s, c) e =
     insert_answers pf now (q_id (new_question pf now s ch src e)) (enumerate1 (surviving e))
       (s\<lparr>questions := questions s @ [new_question pf now s ch src e],
          seq_questions := q_id (new_question pf now s ch src e)\<rparr>,
        c\<lparr>inserted_questions := inserted_questions c + 1\<rparr>)"
  by (simp add: upsert_entry_def entry_key_def new_question_def insert_or_ignore_question_def Let_def)

lemma upsert_entry_duplicate:
  "\<not> unanswered (surviving e) \<Longrightarrow> find_question s ch (entry_key e) = Some r \<Longrightarrow>
   upsert_entry pf now ch src (s, c) e =
     insert_answers pf now (q_id r) (enumerate1 (surviving e))
       (if burns_rowid pf
        then s\<lparr>seq_questions := next_rowid (seq_questions s) (map q_id (questions s))\<rparr> else s,
        c\<lparr>duplicates_skipped := duplicates_skipped c + 1\<rparr>)"
  by (simp add: upsert_entry_def entry_key_def insert_or_ignore_question_def Let_def find_question_def)

lemma upsert_entry_grows: "grows (fst sc) (fst (upsert_entry pf now ch src sc e))"
proof -
  obtain s c where sc: "sc = (s, c)" by (cases sc)
  show ?thesis
  proof (cases "unanswered (surviving e)")
    case True
    then show ?thesis by (simp add: sc upsert_entry_unanswered grows_refl)
  next
    case False
    show ?thesis
    proof (cases "find_question s ch (entry_key e)")
      case None
      let ?s1 = "s\<lparr>questions := questions s @ [new_question pf now s ch src e],
          seq_questions := q_id (new_question pf now s ch src e)\<rparr>"
      have "grows s ?s1" by (simp add: grows_def)
      moreover have "grows ?s1 (fst (upsert_entry pf now ch src sc e))"
        unfolding sc upsert_entry_new[OF False None]
        using insert_answers_grows[of "(?s1, c\<lparr>inserted_questions := inserted_questions c + 1\<rparr>)"]
        by simp
      ultimately show ?thesis unfolding sc fst_conv by (rule grows_trans)
    next
      case (Some r)
      let ?s1 = "if burns_rowid pf
        then s\<lparr>seq_questions := next_rowid (seq_questions s) (map q_id (questions s))\<rparr> else s"
      have "grows s ?s1" by (simp add: grows_def)
      moreover have "grows ?s1 (fst (upsert_entry pf now ch src sc e))"
        unfolding sc upsert_entry_duplicate[OF False Some]
        using insert_answers_grows[of "(?s1, c\<lparr>duplicates_skipped := duplicates_skipped c + 1\<rparr>)"]
        by simp
      ultimately show ?thesis unfolding sc fst_conv by (rule grows_trans)
    qed
  qed
qed

lemma upsert_entry_covered: "covered (fst (upsert_entry pf now ch src sc e)) ch e"
proof -
  obtain s c where sc: "sc = (s, c)" by (cases sc)
  show ?thesis
  proof (cases "unanswered (surviving e)")
    case True
    then show ?thesis by (simp add: covered_def)
  next
    case False
    show ?thesis
    proof (cases "find_question s ch (entry_key e)")
      case None
      let ?row = "new_question pf now s ch src e"
      let ?s1 = "s\<lparr>questions := questions s @ [?row], seq_questions := q_id ?row\<rparr>"
      let ?sc1 = "(?s1, c\<lparr>inserted_questions := inserted_questions c + 1\<rparr>)"
      let ?s2 = "fst (insert_answers pf now (q_id ?row) (enumerate1 (surviving e)) ?sc1)"
      have "find_question ?s1 ch (entry_key e) = Some ?row"
        using None by (simp add: find_question_def find_append_case new_question_def)
      moreover have "grows ?s1 ?s2"
        using insert_answers_grows[of ?sc1] by simp
      ultimately have "find_question ?s2 ch (entry_key e) = Some ?row"
        by (rule find_question_grows)
      moreover have "answers_present ?s2 (q_id ?row) (enumerate1 (surviving e))"
        by (rule insert_answers_present)
      ultimately show ?thesis
        unfolding sc upsert_entry_new[OF False None] by (simp add: covered_def)
    next
      case (Some r)
      let ?s1 = "if burns_rowid pf
        then s\<lparr>seq_questions := next_rowid (seq_questions s) (map q_id (questions s))\<rparr> else s"
      let ?sc1 = "(?s1, c\<lparr>duplicates_skipped := duplicates_skipped c + 1\<rparr>)"
      let ?s2 = "fst (insert_answers pf now (q_id r) (enumerate1 (surviving e)) ?sc1)"
      have "find_question ?s1 ch (entry_key e) = Some r"
        using Some by (simp add: find_question_def)
      moreover have "grows ?s1 ?s2"
        using insert_answers_grows[of ?sc1] by simp
      ultimately have "find_question ?s2 ch (entry_key e) = Some r"
        by (rule find_question_grows)
      moreover have "answers_present ?s2 (q_id r) (enumerate1 (surviving e))"
        by (rule insert_answers_present)
      ultimately show ?thesis
        unfolding sc upsert_entry_duplicate[OF False Some] by (simp add: covered_def)
    qed
  qed
qed

lemma upsert_entry_again:
  assumes "covered s ch e"
  shows "questions (fst (upsert_entry pf now ch src (s, c) e)) = questions s \<and>
         answers (fst (upsert_entry pf now ch src (s, c) e)) = answers s \<and>
         snd (upsert_entry pf now ch src (s, c) e) =
           (if unanswered (surviving e)
            then c\<lparr>skipped_unanswered := skipped_unanswered c + 1\<rparr>
            else c\<lparr>duplicates_skipped := duplicates_skipped c + 1\<rparr>)"
proof (cases "unanswered (surviving e)")
  case True
  then show ?thesis by (simp add: upsert_entry_unanswered)
next
  case False
  with assms obtain r where r: "find_question s ch (entry_key e) = Some r"
    and p: "answers_present s (q_id r) (enumerate1 (surviving e))"
    by (auto simp: covered_def split: option.splits)
  let ?s1 = "if burns_rowid pf
    then s\<lparr>seq_questions := next_rowid (seq_questions s) (map q_id (questions s))\<rparr> else s"
  let ?sc1 = "(?s1, c\<lparr>duplicates_skipped := duplicates_skipped c + 1\<rparr>)"
  have "grows s ?s1" by (simp add: grows_def)
  with p have "answers_present (fst ?sc1) (q_id r) (enumerate1 (surviving e))"
    unfolding fst_conv by (rule answers_present_grows)
  from insert_answers_covered[OF this, of pf now]
    insert_answers_questions[of pf now "q_id r" "enumerate1 (surviving e)" ?sc1]
  show ?thesis
    unfolding upsert_entry_duplicate[OF False r] using False by simp
qed

lemma upsert_loop_grows: "grows (fst sc) (fst (upsert_loop pf now ch src es sc))"
proof (induction es arbitrary: sc)
  case Nil
  then show ?case by (simp add: grows_refl)
next
  case (Cons e es)
  from upsert_entry_grows Cons.IH show ?case
    unfolding upsert_loop.simps by (rule grows_trans)
qed

lemma upsert_loop_covered:
  "e \<in> set es \<Longrightarrow> covered (fst (upsert_loop pf now ch src es sc)) ch e"
proof (induction es arbitrary: sc)
  case Nil
  then show ?case by simp
next
  case (Cons x es)
  show ?case
  proof (cases "e = x")
    case True
    have "covered (fst (upsert_entry pf now ch src sc x)) ch x"
      by (rule upsert_entry_covered)
    then show ?thesis
      unfolding True upsert_loop.simps using upsert_loop_grows by (rule covered_grows)
  next
    case False
    with Cons.prems have "e \<in> set es" by simp
    then show ?thesis unfolding upsert_loop.simps by (rule Cons.IH)
  qed
qed

lemma upsert_loop_again:
  "\<forall>e \<in> set es. covered s ch e \<Longrightarrow>
   questions (fst (upsert_loop pf now ch src es (s, c))) = questions s \<and>
   answers (fst (upsert_loop pf now ch src es (s, c))) = answers s \<and>
   snd (upsert_loop pf now ch src es (s, c)) =
     c\<lparr>duplicates_skipped :=
          duplicates_skipped c + length (filter (\<lambda>e. \<not> unanswered (surviving e)) es),
        skipped_unanswered :=
          skipped_unanswered c + length (filter (\<lambda>e. unanswered (surviving e)) es)\<rparr>"
proof (induction es arbitrary: s c)
  case Nil
  then show ?case by simp
next
  case (Cons e es)
  obtain s' c' where step: "upsert_entry pf now ch src (s, c) e = (s', c')" by force
  from Cons.prems have cov: "covered s ch e" by simp
  from upsert_entry_again[OF cov, of pf now src c]
  have q: "questions s' = questions s" and a: "answers s' = answers s"
    and c': "c' = (if unanswered (surviving e)
            then c\<lparr>skipped_unanswered := skipped_unanswered c + 1\<rparr>
            else c\<lparr>duplicates_skipped := duplicates_skipped c + 1\<rparr>)"
    by (simp_all add: step)
  have "grows s s'" by (simp add: grows_def q a)
  with Cons.prems have "\<forall>e \<in> set es. covered s' ch e"
    by (auto intro: covered_grows)
  from Cons.IH[OF this, of c'] show ?case
    unfolding upsert_loop.simps step by (simp add: q a c')
qed

lemma fold_max_ge_init: "(m::nat) \<le> fold max ids m"
proof (induction ids arbitrary: m)
  case Nil
  then show ?case by simp
next
  case (Cons x ids)
  have "m \<le> max x m" by simp
  also have "\<dots> \<le> fold max ids (max x m)" by (rule Cons.IH)
  finally show ?case by simp
qed

lemma fold_max_ge_elem: "x \<in> set ids \<Longrightarrow> (x::nat) \<le> fold max ids m"
proof (induction ids arbitrary: m)
  case Nil
  then show ?case by simp
next
  case (Cons y ids)
  show ?case
  proof (cases "x = y")
    case True
    have "x \<le> max y m" by (simp add: True)
    also have "\<dots> \<le> fold max ids (max y m)" by (rule fold_max_ge_init)
    finally show ?thesis by simp
  next
    case False
    with Cons.prems have "x \<in> set ids" by simp
    from Cons.IH[OF this] show ?thesis by simp
  qed
qed

lemma next_rowid_fresh: "next_rowid seq ids \<notin> set ids"
proof
  assume "next_rowid seq ids \<in> set ids"
  then have "next_rowid seq ids \<le> fold max ids 0" by (rule fold_max_ge_elem)
  then show False by (simp add: next_rowid_def)
qed

lemma next_rowid_gt_seq: "seq < next_rowid seq ids"
  by (simp add: next_rowid_def)

text \<open>Answers at fresh positions are all inserted, in order.\<close>

lemma insert_answers_fresh:
  assumes "\<forall>a \<in> set (answers s). a_question_id a = qid \<longrightarrow> a_position a < n"
  shows "\<exists>new. answers (fst (insert_answers pf now qid (zip [n ..< n + length xs] xs) (s, c))) =
             answers s @ new \<and>
           map answer_triple new = map (\<lambda>(i, x). (qid, i, x)) (zip [n ..< n + length xs] xs) \<and>
           snd (insert_answers pf now qid (zip [n ..< n + length xs] xs) (s, c)) =
             c\<lparr>inserted_answers := inserted_answers c + length xs\<rparr>"
  using assms
proof (induction xs arbitrary: n s c)
  case Nil
  then show ?case by simp
next
  case (Cons x xs)
  define ias where "ias = zip [Suc n ..< Suc n + length xs] xs"
  define row where "row = \<lparr>a_id = next_rowid (seq_answers s) (map a_id (answers s)),
    a_question_id = qid, a_position = n, a_answer_text = x, a_created_at = now\<rparr>"
  define s1 where "s1 = s\<lparr>answers := answers s @ [row],
    seq_answers := next_rowid (seq_answers s) (map a_id (answers s))\<rparr>"
  define c1 where "c1 = c\<lparr>inserted_answers := inserted_answers c + 1\<rparr>"
  have "[n ..< n + length (x # xs)] = n # [Suc n ..< Suc n + length xs]"
    using upt_conv_Cons[of n "n + length (x # xs)"] by (simp del: upt_Suc)
  then have z: "zip [n ..< n + length (x # xs)] (x # xs) = (n, x) # ias"
    by (simp add: ias_def del: upt_Suc)
  have none: "find_answer s qid n x = None"
    using Cons.prems by (auto simp: find_answer_def find_None_iff)
  have ins: "insert_or_ignore_answer pf now s qid n x = (s1, True)"
    by (simp add: insert_or_ignore_answer_def none Let_def s1_def row_def)
  have inv: "\<forall>a \<in> set (answers s1). a_question_id a = qid \<longrightarrow> a_position a < Suc n"
    using Cons.prems by (auto simp: less_SucI s1_def row_def)
  from Cons.IH[OF inv, of c1, folded ias_def] obtain new where
    new: "answers (fst (insert_answers pf now qid ias (s1, c1))) = answers s1 @ new"
    and tr: "map answer_triple new = map (\<lambda>(i, x). (qid, i, x)) ias"
    and cnt: "snd (insert_answers pf now qid ias (s1, c1)) =
            c1\<lparr>inserted_answers := inserted_answers c1 + length xs\<rparr>"
    by blast
  have step: "insert_answers pf now qid ((n, x) # ias) (s, c) = insert_answers pf now qid ias (s1, c1)"
    by (simp add: ins c1_def)
  show ?case
    unfolding z step
  proof (intro exI[of _ "row # new"] conjI)
    show "answers (fst (insert_answers pf now qid ias (s1, c1))) = answers s @ row # new"
      unfolding new by (simp add: s1_def)
    show "map answer_triple (row # new) = map (\<lambda>(i, x). (qid, i, x)) ((n, x) # ias)"
      by (simp add: tr answer_triple_def row_def)
    show "snd (insert_answers pf now qid ias (s1, c1)) =
      c\<lparr>inserted_answers := inserted_answers c + length (x # xs)\<rparr>"
      unfolding cnt by (simp add: c1_def)
  qed
qed

lemma enumerate1_alt: "enumerate1 xs = zip [1 ..< 1 + length xs] xs"
  by (simp add: enumerate1_def)

lemma insert_answers_stats:
  "inserted_questions (snd (insert_answers pf now qid ias sc)) = inserted_questions (snd sc) \<and>
   duplicates_skipped (snd (insert_answers pf now qid ias sc)) = duplicates_skipped (snd sc) \<and>
   skipped_unanswered (snd (insert_answers pf now qid ias sc)) = skipped_unanswered (snd sc) \<and>
   inserted_answers (snd sc) \<le> inserted_answers (snd (insert_answers pf now qid ias sc))"
proof (induction ias arbitrary: sc)
  case Nil
  then show ?case by simp
next
  case (Cons ia ias)
  obtain i a where ia: "ia = (i, a)" by (cases ia)
  obtain s c where sc: "sc = (s, c)" by (cases sc)
  obtain s' b where r: "insert_or_ignore_answer pf now s qid i a = (s', b)" by force
  let ?sc' = "(s', if b then c\<lparr>inserted_answers := inserted_answers c + 1\<rparr> else c)"
  have step: "insert_answers pf now qid (ia # ias) sc = insert_answers pf now qid ias ?sc'"
    by (simp add: ia sc r)
  from Cons.IH[of ?sc'] show ?case
    unfolding step by (auto simp: sc)
qed

text \<open>The rows that the loop over the answers adds all belong to its question, and the
  counter counts exactly them.\<close>

lemma insert_answers_rows:
  "\<exists>new. answers (fst (insert_answers pf now qid ias sc)) = answers (fst sc) @ new \<and>
         (\<forall>a \<in> set new. a_question_id a = qid) \<and>
         inserted_answers (snd (insert_answers pf now qid ias sc)) =
           inserted_answers (snd sc) + length new"
proof (induction ias arbitrary: sc)
  case Nil
  then show ?case by simp
next
  case (Cons ia ias)
  obtain i a where ia: "ia = (i, a)" by (cases ia)
  obtain s c where sc: "sc = (s, c)" by (cases sc)
  obtain s' b where r: "insert_or_ignore_answer pf now s qid i a = (s', b)" by force
  define sc' where "sc' = (s', if b then c\<lparr>inserted_answers := inserted_answers c + 1\<rparr> else c)"
  have step: "insert_answers pf now qid (ia # ias) (s, c) = insert_answers pf now qid ias sc'"
    by (simp add: ia r sc'_def)
  have first: "\<exists>row. answers s' = answers s @ row \<and> (\<forall>a \<in> set row. a_question_id a = qid) \<and>
      inserted_answers (snd sc') = inserted_answers c + length row"
    using r by (auto simp: insert_or_ignore_answer_def Let_def sc'_def split: option.splits)
  then obtain row where row: "answers s' = answers s @ row"
    and rq: "\<forall>a \<in> set row. a_question_id a = qid"
    and rc: "inserted_answers (snd sc') = inserted_answers c + length row" by blast
  from Cons.IH[of sc'] obtain new where
    new: "answers (fst (insert_answers pf now qid ias sc')) = answers (fst sc') @ new"
    and nq: "\<forall>a \<in> set new. a_question_id a = qid"
    and nc: "inserted_answers (snd (insert_answers pf now qid ias sc')) =
           inserted_answers (snd sc') + length new" by blast
  have "fst sc' = s'" by (simp add: sc'_def)
  with new row have "answers (fst (insert_answers pf now qid ias sc')) = answers s @ (row @ new)"
    by simp
  moreover from rq nq have "\<forall>a \<in> set (row @ new). a_question_id a = qid" by auto
  moreover from rc nc have "inserted_answers (snd (insert_answers pf now qid ias sc')) =
           inserted_answers c + length (row @ new)" by simp
  ultimately show ?case unfolding sc step fst_conv snd_conv by blast
qed

lemma fk_ok_empty_store: "fk_ok empty_store"
  by (simp add: fk_ok_def empty_store_def)

lemma insert_answers_fk_ok:
  assumes "fk_ok (fst sc)" and "qid \<in> set (map q_id (questions (fst sc)))"
  shows "fk_ok (fst (insert_answers pf now qid ias sc))"
proof -
  from insert_answers_rows[of pf now qid ias sc] obtain new where
    new: "answers (fst (insert_answers pf now qid ias sc)) = answers (fst sc) @ new"
    and nq: "\<forall>a \<in> set new. a_question_id a = qid" by blast
  from assms nq show ?thesis
    by (auto simp: fk_ok_def new insert_answers_questions list_all_iff)
qed

lemma find_question_id_in:
  "find_question s ch k = Some r \<Longrightarrow> q_id r \<in> set (map q_id (questions s))"
  by (auto simp: find_question_def find_Some_iff)

lemma fk_ok_fresh:
  assumes "fk_ok s"
  shows "\<forall>a \<in> set (answers s). a_question_id a \<noteq> next_rowid seq (map q_id (questions s))"
proof
  fix a assume "a \<in> set (answers s)"
  with assms have "a_question_id a \<in> set (map q_id (questions s))"
    by (simp add: fk_ok_def list_all_iff)
  with next_rowid_fresh[of seq "map q_id (questions s)"]
  show "a_question_id a \<noteq> next_rowid seq (map q_id (questions s))" by metis
qed

lemma upsert_entry_fk_ok:
  assumes "fk_ok s"
  shows "fk_ok (fst (upsert_entry pf now ch src (s, c) e))"
proof (cases "unanswered (surviving e)")
  case True
  with assms show ?thesis by (simp add: upsert_entry_unanswered)
next
  case False
  show ?thesis
  proof (cases "find_question s ch (entry_key e)")
    case None
    define row where "row = new_question pf now s ch src e"
    define s1 where "s1 = s\<lparr>questions := questions s @ [row], seq_questions := q_id row\<rparr>"
    have "fk_ok s1" using assms by (auto simp: fk_ok_def s1_def list_all_iff)
    moreover have "q_id row \<in> set (map q_id (questions s1))" by (simp add: s1_def)
    ultimately have "fk_ok (fst (insert_answers pf now (q_id row) (enumerate1 (surviving e))
        (s1, c\<lparr>inserted_questions := inserted_questions c + 1\<rparr>)))"
      by (intro insert_answers_fk_ok) simp_all
    then show ?thesis
      unfolding upsert_entry_new[OF False None] by (simp add: s1_def row_def)
  next
    case (Some r)
    define s1 where "s1 = (if burns_rowid pf
      then s\<lparr>seq_questions := next_rowid (seq_questions s) (map q_id (questions s))\<rparr> else s)"
    have "fk_ok s1" using assms by (auto simp: fk_ok_def s1_def)
    moreover have "q_id r \<in> set (map q_id (questions s1))"
      using find_question_id_in[OF Some] by (simp add: s1_def)
    ultimately have "fk_ok (fst (insert_answers pf now (q_id r) (enumerate1 (surviving e))
        (s1, c\<lparr>duplicates_skipped := duplicates_skipped c + 1\<rparr>)))"
      by (intro insert_answers_fk_ok) simp_all
    then show ?thesis
      unfolding upsert_entry_duplicate[OF False Some] by (simp add: s1_def)
  qed
qed

lemma upsert_loop_fk_ok:
  "fk_ok (fst sc) \<Longrightarrow> fk_ok (fst (upsert_loop pf now ch src es sc))"
proof (induction es arbitrary: sc)
  case Nil
  then show ?case by simp
next
  case (Cons e es)
  obtain s c where sc: "sc = (s, c)" by (cases sc)
  from Cons.prems have "fk_ok (fst (upsert_entry pf now ch src sc e))"
    unfolding sc fst_conv by (rule upsert_entry_fk_ok)
  then show ?case unfolding upsert_loop.simps by (rule Cons.IH)
qed

text \<open>A new question under the foreign key: the entry's answers are all new rows.\<close>

lemma upsert_entry_new_rows:
  assumes fk: "fk_ok s" and sv: "\<not> unanswered (surviving e)"
    and nf: "find_question s ch (entry_key e) = None"
  shows "\<exists>new.
    questions (fst (upsert_entry pf now ch src (s, c) e)) =
      questions s @ [new_question pf now s ch src e] \<and>
    answers (fst (upsert_entry pf now ch src (s, c) e)) = answers s @ new \<and>
    map answer_triple new =
      map (\<lambda>(i, x). (q_id (new_question pf now s ch src e), i, x)) (enumerate1 (surviving e)) \<and>
    snd (upsert_entry pf now ch src (s, c) e) =
      c\<lparr>inserted_questions := inserted_questions c + 1,
        inserted_answers := inserted_answers c + length (surviving e)\<rparr>"
proof -
  define row where "row = new_question pf now s ch src e"
  define s1 where "s1 = s\<lparr>questions := questions s @ [row], seq_questions := q_id row\<rparr>"
  define c1 where "c1 = c\<lparr>inserted_questions := inserted_questions c + 1\<rparr>"
  have id: "q_id row = next_rowid (seq_questions s) (map q_id (questions s))"
    by (simp add: row_def new_question_def)
  have "\<forall>a \<in> set (answers s1). a_question_id a = q_id row \<longrightarrow> a_position a < 1"
    using fk_ok_fresh[OF fk, of "seq_questions s"] by (simp add: s1_def id)
  from insert_answers_fresh[OF this, of pf now "surviving e" c1, folded enumerate1_alt]
  obtain new where
    new: "answers (fst (insert_answers pf now (q_id row) (enumerate1 (surviving e)) (s1, c1))) =
            answers s1 @ new"
    and tr: "map answer_triple new = map (\<lambda>(i, x). (q_id row, i, x)) (enumerate1 (surviving e))"
    and cnt: "snd (insert_answers pf now (q_id row) (enumerate1 (surviving e)) (s1, c1)) =
            c1\<lparr>inserted_answers := inserted_answers c1 + length (surviving e)\<rparr>"
    by blast
  have q: "questions (fst (insert_answers pf now (q_id row) (enumerate1 (surviving e)) (s1, c1))) =
      questions s @ [row]"
    by (simp add: insert_answers_questions s1_def)
  have eq: "upsert_entry pf now ch src (s, c) e =
      insert_answers pf now (q_id row) (enumerate1 (surviving e)) (s1, c1)"
    unfolding upsert_entry_new[OF sv nf] by (simp add: row_def s1_def c1_def)
  show ?thesis
    unfolding eq row_def[symmetric]
  proof (intro exI[of _ new] conjI)
    show "questions (fst (insert_answers pf now (q_id row) (enumerate1 (surviving e)) (s1, c1))) =
      questions s @ [row]" by (rule q)
    show "answers (fst (insert_answers pf now (q_id row) (enumerate1 (surviving e)) (s1, c1))) =
      answers s @ new" unfolding new by (simp add: s1_def)
    show "map answer_triple new = map (\<lambda>(i, x). (q_id row, i, x)) (enumerate1 (surviving e))"
      by (rule tr)
    show "snd (insert_answers pf now (q_id row) (enumerate1 (surviving e)) (s1, c1)) =
      c\<lparr>inserted_questions := inserted_questions c + 1,
        inserted_answers := inserted_answers c + length (surviving e)\<rparr>"
      unfolding cnt by (simp add: c1_def)
  qed
qed

lemma unanswered_length: "\<not> unanswered cs \<Longrightarrow> 0 < length cs"
  by (auto simp: unanswered_def)

text \<open>Under the foreign key, a step adds at least as many answers as questions.\<close>

lemma upsert_entry_counts:
  assumes "fk_ok s"
  shows "inserted_questions (snd (upsert_entry pf now ch src (s, c) e)) + inserted_answers c \<le>
         inserted_answers (snd (upsert_entry pf now ch src (s, c) e)) + inserted_questions c"
proof (cases "unanswered (surviving e)")
  case True
  then show ?thesis by (simp add: upsert_entry_unanswered)
next
  case False
  show ?thesis
  proof (cases "find_question s ch (entry_key e)")
    case None
    from upsert_entry_new_rows[OF assms False None, of pf now src c]
    have "snd (upsert_entry pf now ch src (s, c) e) =
      c\<lparr>inserted_questions := inserted_questions c + 1,
        inserted_answers := inserted_answers c + length (surviving e)\<rparr>" by blast
    with unanswered_length[OF False] show ?thesis by (cases "surviving e") simp_all
  next
    case (Some r)
    from insert_answers_stats[of pf now "q_id r" "enumerate1 (surviving e)"
        "(if burns_rowid pf
          then s\<lparr>seq_questions := next_rowid (seq_questions s) (map q_id (questions s))\<rparr> else s,
          c\<lparr>duplicates_skipped := duplicates_skipped c + 1\<rparr>)"]
    show ?thesis unfolding upsert_entry_duplicate[OF False Some] by simp
  qed
qed

lemma upsert_loop_counts:
  "fk_ok (fst sc) \<Longrightarrow>
   inserted_questions (snd (upsert_loop pf now ch src es sc)) + inserted_answers (snd sc) \<le>
   inserted_answers (snd (upsert_loop pf now ch src es sc)) + inserted_questions (snd sc)"
proof (induction es arbitrary: sc)
  case Nil
  then show ?case by simp
next
  case (Cons e es)
  obtain s c where sc: "sc = (s, c)" by (cases sc)
  define sc' where "sc' = upsert_entry pf now ch src (s, c) e"
  from Cons.prems have fk: "fk_ok s" by (simp add: sc)
  then have "fk_ok (fst sc')" unfolding sc'_def by (rule upsert_entry_fk_ok)
  from Cons.IH[OF this] upsert_entry_counts[OF fk, of pf now ch src c e]
  show ?case unfolding upsert_loop.simps sc sc'_def[symmetric] by simp
qed

lemma upsert_entry_cong:
  "question e1 = question e2 \<Longrightarrow> correct e1 = correct e2 \<Longrightarrow>
   upsert_entry pf now ch src sc e1 = upsert_entry pf now ch src sc e2"
  by (simp add: upsert_entry_def surviving_def)

lemma upsert_entries_fk_ok:
  "fk_ok s \<Longrightarrow> fk_ok (fst (upsert_entries pf now s es ch src))"
  unfolding upsert_entries_def by (rule upsert_loop_fk_ok) simp

section \<open>Lemmas on the normalizer\<close>

lemma rstrip_Nil: "rstrip [] = []"
  by (simp add: rstrip_def)

lemma rstrip_eq_Nil: "rstrip s = [] \<longleftrightarrow> (\<forall>c \<in> set s. is_space c)"
  by (simp add: rstrip_def)

lemma rstrip_Cons:
  "rstrip (x # xs) = (if is_space x \<and> rstrip xs = [] then [] else x # rstrip xs)"
  by (auto simp: rstrip_def dropWhile_append)

lemma rstrip_append_word:
  "\<forall>c \<in> set w. \<not> is_space c \<Longrightarrow> rstrip (w @ r) = w @ rstrip r"
  by (induction w) (simp_all add: rstrip_Cons)

lemma re_sub_ws_append_word:
  "\<forall>c \<in> set w. \<not> is_space c \<Longrightarrow> re_sub_ws (w @ t) = w @ re_sub_ws t"
  by (induction w) simp_all

lemma lstrip_rstrip_commute: "dropWhile is_space (rstrip s) = rstrip (dropWhile is_space s)"
proof (induction s)
  case Nil
  then show ?case by (simp add: rstrip_Nil)
next
  case (Cons x xs)
  show ?case
  proof (cases "is_space x")
    case True
    show ?thesis
    proof (cases "rstrip xs = []")
      case e: True
      with Cons.IH have "rstrip (dropWhile is_space xs) = []" by simp
      with True e show ?thesis by (simp add: rstrip_Cons rstrip_Nil)
    next
      case False
      with True Cons.IH show ?thesis by (simp add: rstrip_Cons)
    qed
  next
    case False
    then show ?thesis by (simp add: rstrip_Cons)
  qed
qed

lemma tokens_Nil: "dropWhile is_space s = [] \<Longrightarrow> tokens s = []"
  by (subst tokens.simps) simp

lemma tokens_Cons:
  "dropWhile is_space s \<noteq> [] \<Longrightarrow>
   tokens s = takeWhile (\<lambda>c. \<not> is_space c) (dropWhile is_space s) #
              tokens (dropWhile (\<lambda>c. \<not> is_space c) (dropWhile is_space s))"
  by (subst tokens.simps) (simp add: Let_def)

text \<open>The normalizer joins the tokens of a string with single spaces.\<close>

lemma re_sub_ws_tokens: "re_sub_ws (rstrip (dropWhile is_space s)) = join_space (tokens s)"
proof (induction s rule: tokens.induct)
  case (1 s)
  define r where "r = dropWhile is_space s"
  show ?case
  proof (cases "r = []")
    case True
    then show ?thesis by (simp add: r_def[symmetric] rstrip_Nil tokens_Nil)
  next
    case False
    define w where "w = takeWhile (\<lambda>c. \<not> is_space c) r"
    define r' where "r' = dropWhile (\<lambda>c. \<not> is_space c) r"
    have split: "r = w @ r'" by (simp add: w_def r'_def)
    have word: "\<forall>c \<in> set w. \<not> is_space c"
      unfolding w_def by (auto dest: set_takeWhileD)
    have IH: "re_sub_ws (rstrip (dropWhile is_space r')) = join_space (tokens r')"
      using "1.IH"[OF r_def False] by (simp add: r'_def)
    have tk: "tokens s = w # tokens r'"
      using False tokens_Cons[of s] by (simp add: r_def w_def r'_def)
    have step: "re_sub_ws (rstrip r) = w @ re_sub_ws (rstrip r')"
      unfolding split by (simp add: rstrip_append_word[OF word] re_sub_ws_append_word[OF word])
    show ?thesis
    proof (cases "rstrip r' = []")
      case True
      then have "dropWhile is_space r' = []" by (simp add: rstrip_eq_Nil)
      then have "tokens r' = []" by (rule tokens_Nil)
      with True step show ?thesis by (simp add: r_def[symmetric] tk)
    next
      case ne: False
      then obtain c cs where r'c: "r' = c # cs" by (cases r') (auto simp: rstrip_Nil)
      have "dropWhile (\<lambda>c. \<not> is_space c) r \<noteq> []" using r'c by (simp add: r'_def)
      from hd_dropWhile[OF this] have sp: "is_space c" by (simp add: r'_def[symmetric] r'c)
      from ne have rs: "rstrip r' = c # rstrip cs" by (simp add: r'c rstrip_Cons split: if_splits)
      have "re_sub_ws (rstrip r') = 0x20 # re_sub_ws (dropWhile is_space (rstrip cs))"
        using sp by (simp add: rs)
      also have "dropWhile is_space (rstrip cs) = rstrip (dropWhile is_space cs)"
        by (rule lstrip_rstrip_commute)
      also have "dropWhile is_space cs = dropWhile is_space r'" using sp by (simp add: r'c)
      finally have tail: "re_sub_ws (rstrip r') = 0x20 # join_space (tokens r')"
        by (simp add: IH)
      from ne have "dropWhile is_space r' \<noteq> []" by (simp add: rstrip_eq_Nil)
      then obtain t ts where "tokens r' = t # ts" by (auto simp: tokens_Cons)
      with step tail show ?thesis by (simp add: r_def[symmetric] tk)
    qed
  qed
qed

lemma normalize_text_tokens: "normalize_text s = join_space (tokens s)"
  by (simp add: normalize_text_def strip_def lstrip_def re_sub_ws_tokens)

lemma strip_idem: "strip (strip s) = strip s"
proof -
  have "dropWhile is_space (rstrip (dropWhile is_space s)) = rstrip (dropWhile is_space s)"
    by (simp add: lstrip_rstrip_commute)
  moreover have "rstrip (rstrip t) = rstrip t" for t
    by (simp add: rstrip_def)
  ultimately show ?thesis by (simp add: strip_def lstrip_def)
qed

lemma entry_key_tokens: "entry_key e = join_space (tokens (question e))"
proof -
  have "normalize_text (strip s) = normalize_text s" for s
    by (simp add: normalize_text_def strip_idem)
  then show ?thesis by (simp add: entry_key_def normalize_text_tokens)
qed

text \<open>Conversely, the key determines the tokens: two texts have the same key exactly
  when they have the same tokens.\<close>

lemma tokens_lstrip: "tokens (dropWhile is_space s) = tokens s"
  by (subst tokens.simps, subst (2) tokens.simps) simp

lemma tokens_wellformed:
  "t \<in> set (tokens s) \<Longrightarrow> t \<noteq> [] \<and> (\<forall>c \<in> set t. \<not> is_space c)"
proof (induction s rule: tokens.induct)
  case (1 s)
  define r where "r = dropWhile is_space s"
  show ?case
  proof (cases "r = []")
    case True
    with "1.prems" show ?thesis by (simp add: r_def tokens_Nil)
  next
    case False
    then have tk: "tokens s = takeWhile (\<lambda>c. \<not> is_space c) r #
        tokens (dropWhile (\<lambda>c. \<not> is_space c) r)"
      unfolding r_def by (rule tokens_Cons)
    from False hd_dropWhile[of is_space s] have "\<not> is_space (hd r)" by (simp add: r_def)
    with False have ne: "takeWhile (\<lambda>c. \<not> is_space c) r \<noteq> []"
      by (simp add: takeWhile_eq_Nil_iff)
    show ?thesis
    proof (cases "t = takeWhile (\<lambda>c. \<not> is_space c) r")
      case True
      with ne show ?thesis by (auto dest: set_takeWhileD)
    next
      case ne': False
      with "1.prems" tk have "t \<in> set (tokens (dropWhile (\<lambda>c. \<not> is_space c) r))" by simp
      from "1.IH"[OF r_def False this] show ?thesis .
    qed
  qed
qed

lemma tokens_word_space:
  assumes "w \<noteq> []" and "\<forall>c \<in> set w. \<not> is_space c" and "is_space c0"
  shows "tokens (w @ c0 # r) = w # tokens r"
proof -
  from assms(1,2) have "\<not> is_space (hd (w @ c0 # r))" by (cases w) simp_all
  then have d: "dropWhile is_space (w @ c0 # r) = w @ c0 # r"
    by (simp add: dropWhile_eq_self_iff)
  have t: "takeWhile (\<lambda>c. \<not> is_space c) (w @ c0 # r) = w"
    using assms(2,3) by simp
  have dd: "dropWhile (\<lambda>c. \<not> is_space c) (w @ c0 # r) = c0 # r"
    using assms(2,3) by simp
  have "tokens (c0 # r) = tokens r"
    using tokens_lstrip[of "c0 # r"] tokens_lstrip[of r] assms(3) by simp
  with tokens_Cons[of "w @ c0 # r"] assms(1) show ?thesis
    by (simp add: d t dd)
qed

lemma tokens_word:
  assumes "w \<noteq> []" and "\<forall>c \<in> set w. \<not> is_space c"
  shows "tokens w = [w]"
proof -
  from assms have "\<not> is_space (hd w)" by (cases w) simp_all
  then have d: "dropWhile is_space w = w" by (simp add: dropWhile_eq_self_iff)
  have t: "takeWhile (\<lambda>c. \<not> is_space c) w = w" using assms(2) by simp
  have dd: "dropWhile (\<lambda>c. \<not> is_space c) w = []" using assms(2) by simp
  from tokens_Cons[of w] assms(1) show ?thesis
    by (simp add: d t dd tokens_Nil)
qed

lemma is_space_space: "is_space 0x20"
  by (simp add: is_space_def)

lemma tokens_join_space:
  "\<forall>t \<in> set ts. t \<noteq> [] \<and> (\<forall>c \<in> set t. \<not> is_space c) \<Longrightarrow> tokens (join_space ts) = ts"
proof (induction ts rule: join_space.induct)
  case 1
  then show ?case by (simp add: tokens_Nil)
next
  case (2 t)
  then show ?case by (simp add: tokens_word)
next
  case (3 t u us)
  from "3.prems" have w: "t \<noteq> []" "\<forall>c \<in> set t. \<not> is_space c" by simp_all
  from "3.prems" have "tokens (join_space (u # us)) = u # us" by (intro "3.IH") simp
  with tokens_word_space[OF w is_space_space, of "join_space (u # us)"]
  show ?case by simp
qed

lemma tokens_normalize_text: "tokens (normalize_text s) = tokens s"
  unfolding normalize_text_tokens
  by (rule tokens_join_space) (auto dest: tokens_wellformed)

lemma normalize_text_eq_iff:
  "normalize_text a = normalize_text b \<longleftrightarrow> tokens a = tokens b"
proof
  assume "normalize_text a = normalize_text b"
  then have "tokens (normalize_text a) = tokens (normalize_text b)" by simp
  then show "tokens a = tokens b" by (simp add: tokens_normalize_text)
next
  assume "tokens a = tokens b"
  then show "normalize_text a = normalize_text b" by (simp add: normalize_text_tokens)
qed

section \<open>Lemmas on the chapter resolver\<close>










section \<open>Evaluation of the concrete inputs\<close>

lemmas str_defs = strip_def lstrip_def rstrip_def is_space_def startswith_def

lemmas store_defs = upsert_entries_def upsert_entry_def surviving_def unanswered_def UNANSWERED_def
  empty_store_def zero_stats_def insert_or_ignore_question_def insert_or_ignore_answer_def
  find_question_def find_answer_def enumerate1_def Let_def next_rowid_def

lemma unanswered_iff: "unanswered cs \<longleftrightarrow> cs = [] \<or> cs = [UNANSWERED]"
  by (cases cs) (auto simp: unanswered_def)

lemma surviving_entry_os: "surviving entry_os = correct entry_os"
  by (simp add: surviving_def entry_os_def str_defs)


lemma detect_type_entry_os: "detect_type pf (strip (question entry_os)) = TYPE_CHOICE"
  by (simp add: detect_type_def match_blank_def entry_os_def str_defs)


lemma length_enumerate1: "length (enumerate1 xs) = length xs"
  by (simp add: enumerate1_def del: upt_Suc)

lemma map_fst_enumerate1: "map fst (enumerate1 xs) = [1 ..< Suc (length xs)]"
  by (simp add: enumerate1_def del: upt_Suc)

lemma map_snd_enumerate1: "map snd (enumerate1 xs) = xs"
  by (simp add: enumerate1_def del: upt_Suc)

lemma example_lines_split: "map rstrip_nl (splitlines example_text) = example_lines"
  by (simp add: example_text_def example_lines_def splitlines_def is_linebreak_def rstrip_nl_def)

lemma example_parse: "parse_blocks example_text = [entry_os, entry_paging]"
  unfolding parse_blocks_def example_lines_split
  by (simp add: example_lines_def entry_os_def entry_paging_def str_defs LABEL_Q_def
      LABEL_YOUR_def LABEL_CORRECT_def LABEL_SCORE_def flush_def Let_def)

lemma upsert_twice:
  "questions (fst (upsert_entries pf now2 (fst (upsert_entries pf now1 s es ch src1)) es ch src2)) =
     questions (fst (upsert_entries pf now1 s es ch src1)) \<and>
   answers (fst (upsert_entries pf now2 (fst (upsert_entries pf now1 s es ch src1)) es ch src2)) =
     answers (fst (upsert_entries pf now1 s es ch src1)) \<and>
   snd (upsert_entries pf now2 (fst (upsert_entries pf now1 s es ch src1)) es ch src2) =
     \<lparr>inserted_questions = 0,
      duplicates_skipped = length (filter (\<lambda>e. \<not> unanswered (surviving e)) es),
      skipped_unanswered = length (filter (\<lambda>e. unanswered (surviving e)) es),
      inserted_answers = 0\<rparr>"
proof -
  define s1 where "s1 = fst (upsert_entries pf now1 s es ch src1)"
  have "\<forall>e \<in> set es. covered s1 ch e"
    unfolding s1_def upsert_entries_def by (auto intro: upsert_loop_covered)
  from upsert_loop_again[OF this, of pf now2 src2 zero_stats]
  show ?thesis
    unfolding s1_def[symmetric] upsert_entries_def[of pf now2] by (simp add: zero_stats_def)
qed

lemma example_first_run:
  "snd (upsert_entries ascii_platform 0 empty_store (parse_blocks example_text) ch1 notes_txt) =
     \<lparr>inserted_questions = 1, duplicates_skipped = 0, skipped_unanswered = 1,
      inserted_answers = 2\<rparr>"
  unfolding example_parse
  by (simp add: store_defs entry_os_def entry_paging_def str_defs)

lemma example_lines_bom:
  "map rstrip_nl (splitlines (BOM # example_text)) = (BOM # hd example_lines) # tl example_lines"
  by (simp add: example_text_def example_lines_def splitlines_def is_linebreak_def rstrip_nl_def
      BOM_def)

lemma example_parse_bom: "parse_blocks (BOM # example_text) = [entry_paging]"
  unfolding parse_blocks_def example_lines_bom
  by (simp add: example_lines_def entry_paging_def str_defs LABEL_Q_def BOM_def
      LABEL_YOUR_def LABEL_CORRECT_def LABEL_SCORE_def flush_def Let_def)

lemma strip_bom_example: "strip (BOM # example_text) = BOM # example_text"
  by (simp add: example_text_def example_lines_def str_defs BOM_def)

lemma upsert_example:
  "snd (upsert_entries pf now empty_store [entry_os, entry_paging] ch src) =
     \<lparr>inserted_questions = 1, duplicates_skipped = 0, skipped_unanswered = 1,
      inserted_answers = 2\<rparr>"
  by (simp add: store_defs entry_os_def entry_paging_def str_defs)

lemma upsert_example_bom:
  "upsert_entries pf now empty_store [entry_paging] ch src =
     (empty_store, \<lparr>inserted_questions = 0, duplicates_skipped = 0, skipped_unanswered = 1,
      inserted_answers = 0\<rparr>)"
  by (simp add: store_defs entry_paging_def str_defs)

lemma upsert_entries_single:
  "upsert_entries pf now s [e] ch src = upsert_entry pf now ch src (s, zero_stats) e"
  by (simp add: upsert_entries_def)

text \<open>What one surviving entry does to the table of questions and to the counters.\<close>

lemma upsert_entry_questions:
  assumes "\<not> unanswered (surviving e)"
  shows "questions (fst (upsert_entry pf now ch src (s, c) e)) =
           (case find_question s ch (entry_key e) of
              None \<Rightarrow> questions s @ [new_question pf now s ch src e]
            | Some r \<Rightarrow> questions s) \<and>
         inserted_questions (snd (upsert_entry pf now ch src (s, c) e)) =
           inserted_questions c + (if find_question s ch (entry_key e) = None then 1 else 0) \<and>
         duplicates_skipped (snd (upsert_entry pf now ch src (s, c) e)) =
           duplicates_skipped c + (if find_question s ch (entry_key e) = None then 0 else 1)"
proof (cases "find_question s ch (entry_key e)")
  case None
  let ?sc = "(s\<lparr>questions := questions s @ [new_question pf now s ch src e],
          seq_questions := q_id (new_question pf now s ch src e)\<rparr>,
        c\<lparr>inserted_questions := inserted_questions c + 1\<rparr>)"
  from insert_answers_questions[of pf now "q_id (new_question pf now s ch src e)"
      "enumerate1 (surviving e)" ?sc]
    insert_answers_stats[of pf now "q_id (new_question pf now s ch src e)"
      "enumerate1 (surviving e)" ?sc]
  show ?thesis unfolding upsert_entry_new[OF assms None] by (simp add: None)
next
  case (Some r)
  let ?sc = "(if burns_rowid pf
        then s\<lparr>seq_questions := next_rowid (seq_questions s) (map q_id (questions s))\<rparr> else s,
        c\<lparr>duplicates_skipped := duplicates_skipped c + 1\<rparr>)"
  from insert_answers_questions[of pf now "q_id r" "enumerate1 (surviving e)" ?sc]
    insert_answers_stats[of pf now "q_id r" "enumerate1 (surviving e)" ?sc]
  show ?thesis unfolding upsert_entry_duplicate[OF assms Some] by (simp add: Some)
qed

lemma find_question_None_iff: "find_question s ch k = None \<longleftrightarrow> key_rows s ch k = []"
  by (auto simp: find_question_def key_rows_def find_None_iff filter_empty_conv)

lemma new_question_fields:
  "q_chapter (new_question pf now s ch src e) = ch"
  "q_text_norm (new_question pf now s ch src e) = entry_key e"
  "q_text (new_question pf now s ch src e) = strip (question e)"
  "q_id (new_question pf now s ch src e) = next_rowid (seq_questions s) (map q_id (questions s))"
  by (simp_all add: new_question_def)

lemma tokens_layout:
  "tokens (question entry_layout1) = [[0x4F5C], [0x696D]]"
  "tokens (question entry_layout2) = [[0x4F5C], [0x696D]]"
  by (simp_all add: entry_layout1_def entry_layout2_def tokens_Cons tokens_Nil is_space_def)

section \<open>Lemmas on the block parser\<close>

lemmas line_defs = is_question_line_def is_your_line_def is_correct_line_def is_score_line_def

lemma score_line_not_other:
  "is_score_line l \<Longrightarrow> \<not> is_question_line l \<and> \<not> is_your_line l \<and> \<not> is_correct_line l"
  by (cases "strip l")
     (auto simp: line_defs startswith_def LABEL_Q_def LABEL_YOUR_def LABEL_CORRECT_def LABEL_SCORE_def)

lemma collect_your_questions:
  "filter is_question_line (snd (collect_your ls a)) = filter is_question_line ls"
  by (induction ls arbitrary: a) (auto simp: Let_def is_question_line_def)

lemma collect_correct_questions:
  "filter is_question_line (snd (collect_correct ls a)) = filter is_question_line ls"
  by (induction ls arbitrary: a) (auto simp: Let_def is_question_line_def)

lemma parse_loop_questions:
  "map question (parse_loop ls cur es) =
     map question es @ (case cur of None \<Rightarrow> [] | Some e \<Rightarrow> [question e]) @
     map question_payload (filter is_question_line ls)"
proof (induction ls cur es rule: parse_loop.induct)
  case (1 cur entries)
  then show ?case by (simp add: flush_def split: option.splits)
next
  case (2 raw rest cur entries)
  show ?case
  proof (cases "startswith (strip raw) LABEL_Q")
    case True
    then have q: "is_question_line raw" by (simp add: is_question_line_def)
    from "2.IH"(1)[OF refl True] True show ?thesis
      by (simp add: q question_payload_def flush_def split: option.splits)
  next
    case nq: False
    then have q: "\<not> is_question_line raw" by (simp add: is_question_line_def)
    show ?thesis
    proof (cases "startswith (strip raw) LABEL_YOUR \<and> cur \<noteq> None")
      case True
      with "2.IH"(2)[OF refl nq True refl refl] nq show ?thesis
        by (auto simp: q collect_your_questions Let_def)
    next
      case ny: False
      show ?thesis
      proof (cases "startswith (strip raw) LABEL_CORRECT \<and> cur \<noteq> None")
        case True
        with "2.IH"(3)[OF refl nq ny True refl refl] nq ny show ?thesis
          by (auto simp: q collect_correct_questions Let_def)
      next
        case False
        with "2.IH"(4)[OF refl nq ny False] nq ny show ?thesis
          by (cases cur) (simp_all add: q)
      qed
    qed
  qed
qed

lemma parse_loop_plain:
  "\<not> is_question_line l \<Longrightarrow> cur = None \<or> \<not> (is_your_line l \<or> is_correct_line l) \<Longrightarrow>
   parse_loop (l # rest) cur es = parse_loop rest cur es"
  by (auto simp: line_defs)

lemma parse_loop_skip_closed:
  "\<forall>l \<in> set pre. \<not> is_question_line l \<Longrightarrow> parse_loop (pre @ rest) None es = parse_loop rest None es"
proof (induction pre)
  case Nil
  then show ?case by simp
next
  case (Cons l pre)
  then have "parse_loop (l # pre @ rest) None es = parse_loop (pre @ rest) None es"
    by (intro parse_loop_plain) simp_all
  with Cons show ?case by simp
qed

lemma parse_loop_skip_plain:
  "\<forall>l \<in> set mid. \<not> marker_line l \<Longrightarrow> parse_loop (mid @ rest) cur es = parse_loop rest cur es"
proof (induction mid)
  case Nil
  then show ?case by simp
next
  case (Cons l mid)
  then have "parse_loop (l # mid @ rest) cur es = parse_loop (mid @ rest) cur es"
    by (intro parse_loop_plain) (simp_all add: marker_line_def)
  with Cons show ?case by simp
qed

lemma collect_your_stop:
  "is_question_line t \<or> is_score_line t \<Longrightarrow>
   collect_your (ls @ t # rest) a = (fst (collect_your ls a), snd (collect_your ls a) @ t # rest)"
  by (induction ls arbitrary: a) (auto simp: Let_def line_defs)

lemma collect_correct_stop:
  "is_question_line t \<or> is_score_line t \<Longrightarrow>
   collect_correct (ls @ t # rest) a = (fst (collect_correct ls a), snd (collect_correct ls a) @ t # rest)"
  by (induction ls arbitrary: a) (auto simp: Let_def line_defs)

text \<open>The scan always reaches a question line or a score line from the outer loop.\<close>

lemma parse_loop_reaches:
  assumes "is_question_line t \<or> is_score_line t"
  shows "\<exists>cur' es'. \<forall>rest. parse_loop (pre @ t # rest) cur es = parse_loop (t # rest) cur' es'"
proof (induction pre cur es rule: parse_loop.induct)
  case (1 cur entries)
  then show ?case by auto
next
  case (2 raw ls cur entries)
  show ?case
  proof (cases "startswith (strip raw) LABEL_Q")
    case True
    define c1 where "c1 = Some \<lparr>question = strip (drop (length LABEL_Q) (strip raw)), your = [], correct = []\<rparr>"
    from "2.IH"(1)[OF refl True, folded c1_def] obtain cur' es' where
      ih: "\<And>rest. parse_loop (ls @ t # rest) c1 (flush cur entries) = parse_loop (t # rest) cur' es'"
      by blast
    have step: "\<And>rest. parse_loop ((raw # ls) @ t # rest) cur entries =
        parse_loop (ls @ t # rest) c1 (flush cur entries)"
      using True by (simp add: c1_def)
    have "\<forall>rest. parse_loop ((raw # ls) @ t # rest) cur entries = parse_loop (t # rest) cur' es'"
      unfolding step ih by blast
    then show ?thesis by blast
  next
    case nq: False
    show ?thesis
    proof (cases "startswith (strip raw) LABEL_YOUR \<and> cur \<noteq> None")
      case True
      define a where "a = (if strip (drop (length LABEL_YOUR) (strip raw)) \<noteq> []
        then [strip (drop (length LABEL_YOUR) (strip raw))] else [])"
      define c1 where "c1 = map_option (\<lambda>e. e\<lparr>your := fst (collect_your ls a)\<rparr>) cur"
      from "2.IH"(2)[OF refl nq True refl refl, folded a_def, folded c1_def] obtain cur' es' where
        ih: "\<And>rest. parse_loop (snd (collect_your ls a) @ t # rest) c1 entries =
          parse_loop (t # rest) cur' es'" by blast
      have step: "\<And>rest. parse_loop ((raw # ls) @ t # rest) cur entries =
          parse_loop (snd (collect_your ls a) @ t # rest) c1 entries"
        using True nq by (simp add: Let_def collect_your_stop[OF assms] a_def c1_def)
      have "\<forall>rest. parse_loop ((raw # ls) @ t # rest) cur entries = parse_loop (t # rest) cur' es'"
        unfolding step ih by blast
      then show ?thesis by blast
    next
      case ny: False
      show ?thesis
      proof (cases "startswith (strip raw) LABEL_CORRECT \<and> cur \<noteq> None")
        case True
        define a where "a = (if strip (drop (length LABEL_CORRECT) (strip raw)) \<noteq> []
          then [strip (drop (length LABEL_CORRECT) (strip raw))] else [])"
        define c1 where "c1 = map_option (\<lambda>e. e\<lparr>correct := fst (collect_correct ls a)\<rparr>) cur"
        from "2.IH"(3)[OF refl nq ny True refl refl, folded a_def, folded c1_def]
        obtain cur' es' where
          ih: "\<And>rest. parse_loop (snd (collect_correct ls a) @ t # rest) c1 entries =
            parse_loop (t # rest) cur' es'" by blast
        have step: "\<And>rest. parse_loop ((raw # ls) @ t # rest) cur entries =
            parse_loop (snd (collect_correct ls a) @ t # rest) c1 entries"
          using True nq ny by (simp add: Let_def collect_correct_stop[OF assms] a_def c1_def)
        have "\<forall>rest. parse_loop ((raw # ls) @ t # rest) cur entries = parse_loop (t # rest) cur' es'"
          unfolding step ih by blast
        then show ?thesis by blast
      next
        case False
        from "2.IH"(4)[OF refl nq ny False] obtain cur' es' where
          ih: "\<And>rest. parse_loop (ls @ t # rest) cur entries = parse_loop (t # rest) cur' es'"
          by blast
        have step: "\<And>rest. parse_loop ((raw # ls) @ t # rest) cur entries =
            parse_loop (ls @ t # rest) cur entries"
          using False nq ny by (cases cur) simp_all
        have "\<forall>rest. parse_loop ((raw # ls) @ t # rest) cur entries = parse_loop (t # rest) cur' es'"
          unfolding step ih by blast
        then show ?thesis by blast
      qed
    qed
  qed
qed

lemma parse_loop_after_stop:
  assumes t: "is_question_line t \<or> is_score_line t"
    and plain: "\<forall>l \<in> set mid. \<not> marker_line l"
  shows "\<exists>cur' es'. \<forall>rest. parse_loop (pre @ t # mid @ rest) cur es = parse_loop rest cur' es'"
proof -
  from parse_loop_reaches[OF t, of pre cur es] obtain c1 e1 where
    r: "\<And>rest. parse_loop (pre @ t # rest) cur es = parse_loop (t # rest) c1 e1" by blast
  show ?thesis
  proof (cases "is_question_line t")
    case True
    define c2 where "c2 = Some \<lparr>question = strip (drop (length LABEL_Q) (strip t)), your = [], correct = []\<rparr>"
    have "parse_loop (t # mid @ rest) c1 e1 = parse_loop (mid @ rest) c2 (flush c1 e1)" for rest
      using True by (simp add: is_question_line_def c2_def)
    then have "parse_loop (pre @ t # mid @ rest) cur es = parse_loop rest c2 (flush c1 e1)" for rest
      unfolding r parse_loop_skip_plain[OF plain] by simp
    then show ?thesis by blast
  next
    case False
    with t have sc: "is_score_line t" by simp
    from score_line_not_other[OF sc]
    have "parse_loop (t # mid @ rest) c1 e1 = parse_loop (mid @ rest) c1 e1" for rest
      by (intro parse_loop_plain) simp_all
    then have "parse_loop (pre @ t # mid @ rest) cur es = parse_loop rest c1 e1" for rest
      unfolding r parse_loop_skip_plain[OF plain] by simp
    then show ?thesis by blast
  qed
qed

lemma parse_loop_ignores_plain:
  assumes "is_question_line t \<or> is_score_line t" and "\<forall>l \<in> set (mid @ [x]). \<not> marker_line l"
  shows "parse_loop (pre @ t # mid @ x # rest) cur es = parse_loop (pre @ t # mid @ rest) cur es"
proof -
  from assms(2) have m: "\<forall>l \<in> set mid. \<not> marker_line l" and x: "\<forall>l \<in> set (mid @ [x]). \<not> marker_line l"
    by simp_all
  from parse_loop_after_stop[OF assms(1) x, of pre cur es] obtain c1 e1 where
    a: "\<And>r. parse_loop (pre @ t # (mid @ [x]) @ r) cur es = parse_loop r c1 e1" by blast
  from parse_loop_after_stop[OF assms(1) m, of pre cur es] obtain c2 e2 where
    b: "\<And>r. parse_loop (pre @ t # mid @ r) cur es = parse_loop r c2 e2" by blast
  have "\<not> marker_line x" using assms(2) by simp
  then have skip: "parse_loop (x # r) c2 e2 = parse_loop r c2 e2" for r
    by (intro parse_loop_plain) (simp_all add: marker_line_def)
  have "parse_loop (pre @ t # mid @ x # rest) cur es = parse_loop (x # rest) c2 e2"
    by (rule b)
  also have "\<dots> = parse_loop rest c2 e2" by (rule skip)
  also have "\<dots> = parse_loop (pre @ t # mid @ rest) cur es" by (rule b[symmetric])
  finally show ?thesis .
qed

lemma example_lines_nth: "example_lines ! 3 = plain_line"
  by (simp add: example_lines_def plain_line_def)

lemma plain_line_no_marker: "\<not> marker_line plain_line"
  by (simp add: marker_line_def line_defs plain_line_def str_defs LABEL_Q_def LABEL_YOUR_def
      LABEL_CORRECT_def LABEL_SCORE_def)

lemma example_cut_lines:
  "map rstrip_nl (splitlines (join_nl (take 3 example_lines @ drop 4 example_lines))) =
     take 3 example_lines @ drop 4 example_lines"
  by (simp add: example_lines_def splitlines_def is_linebreak_def rstrip_nl_def)

lemma example_cut_parse:
  "parse_blocks (join_nl (take 3 example_lines @ drop 4 example_lines)) =
     [entry_os\<lparr>correct := [[0x41]]\<rparr>, entry_paging]"
  unfolding parse_blocks_def example_cut_lines
  by (simp add: example_lines_def entry_os_def entry_paging_def str_defs LABEL_Q_def
      LABEL_YOUR_def LABEL_CORRECT_def LABEL_SCORE_def flush_def Let_def)

lemma your_line_not_question: "is_your_line l \<Longrightarrow> \<not> is_question_line l"
  by (cases "strip l") (auto simp: line_defs startswith_def LABEL_Q_def LABEL_YOUR_def)

lemma correct_line_not_other:
  "is_correct_line l \<Longrightarrow> \<not> is_question_line l \<and> \<not> is_your_line l"
  by (cases "strip l")
     (auto simp: line_defs startswith_def LABEL_Q_def LABEL_YOUR_def LABEL_CORRECT_def)

lemma collect_your_block:
  "\<forall>l \<in> set mid. \<not> your_stop l \<Longrightarrow> rest = [] \<or> your_stop (hd rest) \<Longrightarrow>
   collect_your (mid @ rest) a = (a @ answer_lines mid, rest)"
proof (induction mid arbitrary: a)
  case Nil
  then show ?case
    by (cases rest) (auto simp: answer_lines_def your_stop_def line_defs)
next
  case (Cons l mid)
  from Cons.prems(1) have l: "\<not> your_stop l" and m: "\<forall>l \<in> set mid. \<not> your_stop l" by simp_all
  from Cons.IH[OF m Cons.prems(2)] l show ?case
    by (simp add: answer_lines_def your_stop_def line_defs)
qed

lemma collect_correct_block:
  "\<forall>l \<in> set mid. \<not> correct_stop l \<Longrightarrow> rest = [] \<or> correct_stop (hd rest) \<Longrightarrow>
   collect_correct (mid @ rest) a = (a @ answer_lines mid, rest)"
proof (induction mid arbitrary: a)
  case Nil
  then show ?case
    by (cases rest) (auto simp: answer_lines_def correct_stop_def line_defs)
next
  case (Cons l mid)
  from Cons.prems(1) have l: "\<not> correct_stop l" and m: "\<forall>l \<in> set mid. \<not> correct_stop l"
    by simp_all
  from Cons.IH[OF m Cons.prems(2)] l show ?case
    by (simp add: answer_lines_def correct_stop_def line_defs)
qed

text \<open>A block of answers at the outer loop, with an open entry: the entry's list becomes
  the text after the marker and the lines of the block, each stripped, the blank ones
  left out.\<close>

lemma parse_loop_your_block:
  assumes "is_your_line t" and "\<forall>l \<in> set mid. \<not> your_stop l"
    and "rest = [] \<or> your_stop (hd rest)"
  shows "parse_loop (t # mid @ rest) (Some e) es =
         parse_loop rest (Some (e\<lparr>your := answer_lines (your_payload t # mid)\<rparr>)) es"
proof -
  from your_line_not_question[OF assms(1)] have nq: "\<not> startswith (strip t) LABEL_Q"
    by (simp add: is_question_line_def)
  from assms(1) have y: "startswith (strip t) LABEL_YOUR" by (simp add: is_your_line_def)
  have a: "(if strip (drop (length LABEL_YOUR) (strip t)) \<noteq> []
            then [strip (drop (length LABEL_YOUR) (strip t))] else []) @ answer_lines mid =
           answer_lines (your_payload t # mid)"
    by (simp add: answer_lines_def your_payload_def)
  show ?thesis
    using nq y by (simp add: Let_def collect_your_block[OF assms(2,3)] a)
qed

lemma parse_loop_correct_block:
  assumes "is_correct_line t" and "\<forall>l \<in> set mid. \<not> correct_stop l"
    and "rest = [] \<or> correct_stop (hd rest)"
  shows "parse_loop (t # mid @ rest) (Some e) es =
         parse_loop rest (Some (e\<lparr>correct := answer_lines (correct_payload t # mid)\<rparr>)) es"
proof -
  from correct_line_not_other[OF assms(1)] have nq: "\<not> startswith (strip t) LABEL_Q"
    and ny: "\<not> startswith (strip t) LABEL_YOUR"
    by (simp_all add: is_question_line_def is_your_line_def)
  from assms(1) have y: "startswith (strip t) LABEL_CORRECT" by (simp add: is_correct_line_def)
  have a: "(if strip (drop (length LABEL_CORRECT) (strip t)) \<noteq> []
            then [strip (drop (length LABEL_CORRECT) (strip t))] else []) @ answer_lines mid =
           answer_lines (correct_payload t # mid)"
    by (simp add: answer_lines_def correct_payload_def)
  show ?thesis
    using nq ny y by (simp add: Let_def collect_correct_block[OF assms(2,3)] a)
qed

text \<open>Entries that were flushed stay as they are, at the front of the output.\<close>

lemma prefix_flush: "prefix es (flush cur es)"
  by (simp add: flush_def split: option.splits)

lemma parse_loop_prefix: "prefix es (parse_loop ls cur es)"
proof (induction ls cur es rule: parse_loop.induct)
  case (1 cur entries)
  then show ?case by (simp add: prefix_flush)
next
  case (2 raw rest cur entries)
  show ?case
  proof (cases "startswith (strip raw) LABEL_Q")
    case True
    from prefix_flush "2.IH"(1)[OF refl True] have
      "prefix entries (parse_loop rest
          (Some \<lparr>question = strip (drop (length LABEL_Q) (strip raw)), your = [], correct = []\<rparr>)
          (flush cur entries))"
      by (rule prefix_order.trans)
    with True show ?thesis by simp
  next
    case nq: False
    show ?thesis
    proof (cases "startswith (strip raw) LABEL_YOUR \<and> cur \<noteq> None")
      case True
      with "2.IH"(2)[OF refl nq True refl refl] nq show ?thesis
        by (auto simp: Let_def)
    next
      case ny: False
      show ?thesis
      proof (cases "startswith (strip raw) LABEL_CORRECT \<and> cur \<noteq> None")
        case True
        with "2.IH"(3)[OF refl nq ny True refl refl] nq ny show ?thesis
          by (auto simp: Let_def)
      next
        case False
        with "2.IH"(4)[OF refl nq ny False] nq ny show ?thesis
          by (cases cur) simp_all
      qed
    qed
  qed
qed

text \<open>When the block of correct answers runs to the end of the text or to the next
  question line, its entry is in the output with the collected list.\<close>

lemma parse_loop_correct_output:
  assumes "is_correct_line t" and "\<forall>l \<in> set mid. \<not> correct_stop l"
    and "rest = [] \<or> is_question_line (hd rest)"
  shows "prefix (es @ [e\<lparr>correct := answer_lines (correct_payload t # mid)\<rparr>])
           (parse_loop (t # mid @ rest) (Some e) es)"
proof -
  define e' where "e' = e\<lparr>correct := answer_lines (correct_payload t # mid)\<rparr>"
  from assms(3) have st: "rest = [] \<or> correct_stop (hd rest)" by (auto simp: correct_stop_def)
  have step: "parse_loop (t # mid @ rest) (Some e) es = parse_loop rest (Some e') es"
    unfolding e'_def by (rule parse_loop_correct_block[OF assms(1,2) st])
  have "prefix (es @ [e']) (parse_loop rest (Some e') es)"
  proof (cases rest)
    case Nil
    then show ?thesis by (simp add: flush_def)
  next
    case (Cons q rest')
    with assms(3) have "startswith (strip q) LABEL_Q" by (simp add: is_question_line_def)
    then have "parse_loop (q # rest') (Some e') es =
        parse_loop rest'
          (Some \<lparr>question = strip (drop (length LABEL_Q) (strip q)), your = [], correct = []\<rparr>)
          (es @ [e'])"
      by (simp add: flush_def)
    then show ?thesis unfolding Cons by (simp add: parse_loop_prefix)
  qed
  then show ?thesis unfolding step e'_def .
qed

lemma parse_loop_your_output:
  assumes "is_your_line t" and "\<forall>l \<in> set mid. \<not> your_stop l"
    and "rest = [] \<or> is_question_line (hd rest)"
  shows "prefix (es @ [e\<lparr>your := answer_lines (your_payload t # mid)\<rparr>])
           (parse_loop (t # mid @ rest) (Some e) es)"
proof -
  define e' where "e' = e\<lparr>your := answer_lines (your_payload t # mid)\<rparr>"
  from assms(3) have st: "rest = [] \<or> your_stop (hd rest)" by (auto simp: your_stop_def)
  have step: "parse_loop (t # mid @ rest) (Some e) es = parse_loop rest (Some e') es"
    unfolding e'_def by (rule parse_loop_your_block[OF assms(1,2) st])
  have "prefix (es @ [e']) (parse_loop rest (Some e') es)"
  proof (cases rest)
    case Nil
    then show ?thesis by (simp add: flush_def)
  next
    case (Cons q rest')
    with assms(3) have "startswith (strip q) LABEL_Q" by (simp add: is_question_line_def)
    then have "parse_loop (q # rest') (Some e') es =
        parse_loop rest'
          (Some \<lparr>question = strip (drop (length LABEL_Q) (strip q)), your = [], correct = []\<rparr>)
          (es @ [e'])"
      by (simp add: flush_def)
    then show ?thesis unfolding Cons by (simp add: parse_loop_prefix)
  qed
  then show ?thesis unfolding step e'_def .
qed

lemma marker_free_not_stop:
  "\<not> marker_line l \<Longrightarrow> \<not> your_stop l \<and> \<not> correct_stop l"
  by (simp add: marker_line_def your_stop_def correct_stop_def)

lemma answer_lines_member:
  "x \<in> set block \<Longrightarrow> strip x \<noteq> [] \<Longrightarrow> strip x \<in> set (answer_lines (p # block))"
  by (auto simp: answer_lines_def)

lemma answer_lines_blank:
  "strip b = [] \<Longrightarrow> answer_lines (b1 @ b # b2) = answer_lines (b1 @ b2)"
  by (simp add: answer_lines_def)

lemma example_block_facts:
  "is_correct_line (example_lines ! 2)" "is_your_line (example_lines ! 1)"
  "is_question_line (hd (drop 5 example_lines))" "drop 5 example_lines \<noteq> []"
  "strip plain_line \<noteq> []" "strip [] = []"
  "answer_lines (correct_payload (example_lines ! 2) # [plain_line, []]) = [[0x41], plain_line]"
  "answer_lines (your_payload (example_lines ! 1) # [plain_line, []]) = [[0x41], plain_line]"
  by (simp_all add: line_defs example_lines_def plain_line_def str_defs LABEL_Q_def LABEL_YOUR_def
      LABEL_CORRECT_def answer_lines_def correct_payload_def your_payload_def)

lemma blank_no_marker: "\<not> marker_line []"
  by (simp add: marker_line_def line_defs str_defs LABEL_Q_def LABEL_YOUR_def
      LABEL_CORRECT_def LABEL_SCORE_def)

section \<open>The claims\<close>

text \<open>
  Claim C1 (idempotence of a batch). For every text and chapter tag, let the entries
  parsed from the text be upserted into a store, and upserted again into the store that
  the first run leaves. The second run adds no row to either table and returns zero
  inserted questions and zero inserted answers; it counts every entry that survives the
  unanswered filter as a duplicate and every other entry as unanswered. When the store
  before the first run satisfies the foreign key of the answers and the first run
  inserted a question, the first run also inserted an answer.
\<close>

theorem idempotence:
  "let es = parse_blocks text;
       r1 = upsert_entries pf now1 s0 es chapter source1;
       r2 = upsert_entries pf now2 (fst r1) es chapter source2
   in inserted_questions (snd r2) = 0 \<and> inserted_answers (snd r2) = 0 \<and>
      questions (fst r2) = questions (fst r1) \<and> answers (fst r2) = answers (fst r1) \<and>
      duplicates_skipped (snd r2) = length (filter (\<lambda>e. \<not> unanswered (surviving e)) es) \<and>
      skipped_unanswered (snd r2) = length (filter (\<lambda>e. unanswered (surviving e)) es) \<and>
      (fk_ok s0 \<and> 0 < inserted_questions (snd r1) \<longrightarrow> 0 < inserted_answers (snd r1))"
proof -
  define es where "es = parse_blocks text"
  define r1 where "r1 = upsert_entries pf now1 s0 es chapter source1"
  define r2 where "r2 = upsert_entries pf now2 (fst r1) es chapter source2"
  from upsert_twice[where pf = pf and ?now2.0 = now2 and ?now1.0 = now1 and s = s0 and es = es
      and ch = "chapter" and ?src1.0 = source1 and ?src2.0 = source2, folded r1_def, folded r2_def]
  have second: "questions (fst r2) = questions (fst r1)" "answers (fst r2) = answers (fst r1)"
    "inserted_questions (snd r2) = 0" "inserted_answers (snd r2) = 0"
    "duplicates_skipped (snd r2) = length (filter (\<lambda>e. \<not> unanswered (surviving e)) es)"
    "skipped_unanswered (snd r2) = length (filter (\<lambda>e. unanswered (surviving e)) es)"
    by simp_all
  have first: "0 < inserted_answers (snd r1)" if "fk_ok s0" and "0 < inserted_questions (snd r1)"
  proof -
    from that(1) have "fk_ok (fst (s0, zero_stats))" by simp
    from upsert_loop_counts[OF this, of pf now1 "chapter" source1 es]
    have "inserted_questions (snd r1) \<le> inserted_answers (snd r1)"
      by (simp add: r1_def upsert_entries_def zero_stats_def)
    with that(2) show ?thesis by simp
  qed
  from second first show ?thesis
    unfolding Let_def es_def[symmetric] r1_def[symmetric] r2_def[symmetric] by blast
qed

text \<open>
  An instance of C1: the example text, twice into the empty store.
\<close>

theorem idempotence_witness:
  "fk_ok empty_store \<and>
   0 < inserted_questions
     (snd (upsert_entries ascii_platform 0 empty_store (parse_blocks example_text) ch1 notes_txt)) \<and>
   0 < inserted_answers
     (snd (upsert_entries ascii_platform 0 empty_store (parse_blocks example_text) ch1 notes_txt)) \<and>
   inserted_questions
     (snd (upsert_entries ascii_platform 5
        (fst (upsert_entries ascii_platform 0 empty_store (parse_blocks example_text) ch1 notes_txt))
        (parse_blocks example_text) ch1 notes_txt)) = 0 \<and>
   inserted_answers
     (snd (upsert_entries ascii_platform 5
        (fst (upsert_entries ascii_platform 0 empty_store (parse_blocks example_text) ch1 notes_txt))
        (parse_blocks example_text) ch1 notes_txt)) = 0 \<and>
   duplicates_skipped
     (snd (upsert_entries ascii_platform 5
        (fst (upsert_entries ascii_platform 0 empty_store (parse_blocks example_text) ch1 notes_txt))
        (parse_blocks example_text) ch1 notes_txt)) = 1"
proof -
  have q: "0 < inserted_questions
     (snd (upsert_entries ascii_platform 0 empty_store (parse_blocks example_text) ch1 notes_txt))"
    by (simp add: example_first_run)
  have n: "length (filter (\<lambda>e. \<not> unanswered (surviving e)) (parse_blocks example_text)) = 1"
    unfolding example_parse
    by (simp add: surviving_def unanswered_def UNANSWERED_def entry_os_def entry_paging_def str_defs)
  from idempotence[where pf = ascii_platform and ?now1.0 = 0 and ?now2.0 = 5 and ?s0.0 = empty_store
      and ?text = example_text and ?chapter = ch1 and ?source1.0 = notes_txt and ?source2.0 = notes_txt]
    fk_ok_empty_store q n
  show ?thesis unfolding Let_def by simp
qed

text \<open>
  Claim C2 (end-to-end example). The example text parses to two entries in source
  order; the first has the correct answers A and the line after it, the second has the
  unanswered sentinel alone and is filtered; upserting the entries into the empty store
  returns 1 inserted question, 2 inserted answers, 1 unanswered skip and no duplicate,
  on every platform, at every time, for every chapter and source label.
\<close>

theorem end_to_end_example:
  "parse_blocks example_text = [entry_os, entry_paging] \<and>
   length (parse_blocks example_text) = 2 \<and>
   correct (parse_blocks example_text ! 0) =
     [[0x41], [0x7BA1, 0x7406, 0x786C, 0x9AD4, 0x8CC7, 0x6E90]] \<and>
   surviving (parse_blocks example_text ! 1) = [UNANSWERED] \<and>
   unanswered (surviving (parse_blocks example_text ! 1)) \<and>
   snd (upsert_entries pf now empty_store (parse_blocks example_text) chapter source_file) =
     \<lparr>inserted_questions = 1, duplicates_skipped = 0, skipped_unanswered = 1,
      inserted_answers = 2\<rparr>"
  unfolding example_parse upsert_example
  by (simp add: entry_os_def entry_paging_def surviving_def unanswered_def UNANSWERED_def str_defs)

text \<open>
  Claim C3 (position fidelity). In a store that satisfies the foreign key of the
  answers, an entry that survives the filter and whose key has no row in the chapter
  gets a new question row, and exactly \<open>k\<close> new answer rows, where \<open>k\<close> is the number
  of its surviving correct answers: they are the only answers of the new question, their
  positions are 1 to \<open>k\<close> and their texts are the surviving answers, in the order of
  the entry; the counter of inserted answers grows by the number of new rows, which is
  \<open>k\<close>.
\<close>

theorem position_fidelity:
  assumes "fk_ok s" and "\<not> unanswered (surviving e)"
    and "find_question s chapter (entry_key e) = None"
  shows "let r = upsert_entry pf now chapter source_file (s, c) e;
             row = new_question pf now s chapter source_file e;
             new = drop (length (answers s)) (answers (fst r))
         in questions (fst r) = questions s @ [row] \<and>
            answers (fst r) = answers s @ new \<and>
            filter (\<lambda>a. a_question_id a = q_id row) (answers (fst r)) = new \<and>
            length new = length (surviving e) \<and>
            map a_position new = [1 ..< Suc (length (surviving e))] \<and>
            map a_answer_text new = surviving e \<and>
            map answer_triple new = map (\<lambda>(i, x). (q_id row, i, x)) (enumerate1 (surviving e)) \<and>
            inserted_answers (snd r) = inserted_answers c + length new \<and>
            inserted_questions (snd r) = inserted_questions c + 1"
proof -
  define r where "r = upsert_entry pf now chapter source_file (s, c) e"
  define row where "row = new_question pf now s chapter source_file e"
  from upsert_entry_new_rows[OF assms, of pf now source_file c, folded r_def row_def]
  obtain new where q: "questions (fst r) = questions s @ [row]"
    and a: "answers (fst r) = answers s @ new"
    and tr: "map answer_triple new = map (\<lambda>(i, x). (q_id row, i, x)) (enumerate1 (surviving e))"
    and cnt: "snd r = c\<lparr>inserted_questions := inserted_questions c + 1,
        inserted_answers := inserted_answers c + length (surviving e)\<rparr>"
    by blast
  have d: "drop (length (answers s)) (answers (fst r)) = new" by (simp add: a)
  have len: "length new = length (surviving e)"
    using arg_cong[OF tr, of length] by (simp add: length_enumerate1)
  have "map (fst \<circ> snd) (map answer_triple new) = map a_position new"
    by (simp add: answer_triple_def comp_def)
  then have "map a_position new = map fst (enumerate1 (surviving e))"
    unfolding tr by (simp add: comp_def case_prod_unfold)
  then have pos: "map a_position new = [1 ..< Suc (length (surviving e))]"
    unfolding map_fst_enumerate1 .
  have "map (snd \<circ> snd) (map answer_triple new) = map a_answer_text new"
    by (simp add: answer_triple_def comp_def)
  then have "map a_answer_text new = map snd (enumerate1 (surviving e))"
    unfolding tr by (simp add: comp_def case_prod_unfold)
  then have atxt: "map a_answer_text new = surviving e"
    by (simp add: map_snd_enumerate1)
  have "map (fst) (map answer_triple new) = map a_question_id new"
    by (simp add: answer_triple_def comp_def)
  then have "map a_question_id new = map (\<lambda>x. q_id row) (enumerate1 (surviving e))"
    unfolding tr by (simp add: comp_def case_prod_unfold)
  then have "set (map a_question_id new) \<subseteq> {q_id row}"
    by auto
  then have own: "\<forall>a \<in> set new. a_question_id a = q_id row"
    by auto
  have id: "q_id row = next_rowid (seq_questions s) (map q_id (questions s))"
    by (simp add: row_def new_question_def)
  have old: "\<forall>a \<in> set (answers s). a_question_id a \<noteq> q_id row"
    unfolding id using assms(1) by (rule fk_ok_fresh)
  have fl: "filter (\<lambda>a. a_question_id a = q_id row) (answers (fst r)) = new"
    using old own by (simp add: a filter_empty_conv filter_id_conv)
  from cnt have ca: "inserted_answers (snd r) = inserted_answers c + length new"
    and cq: "inserted_questions (snd r) = inserted_questions c + 1"
    by (simp_all add: len)
  from q a fl len pos atxt tr ca cq show ?thesis
    unfolding r_def[symmetric] row_def[symmetric] Let_def d by blast
qed

text \<open>
  An instance of C3: the first entry of the example, into the empty store.
\<close>

theorem position_fidelity_witness:
  "fk_ok empty_store \<and> \<not> unanswered (surviving entry_os) \<and>
   find_question empty_store ch1 (entry_key entry_os) = None \<and>
   map a_position
     (answers (fst (upsert_entry ascii_platform 0 ch1 notes_txt (empty_store, zero_stats) entry_os))) =
     [1, 2] \<and>
   map a_answer_text
     (answers (fst (upsert_entry ascii_platform 0 ch1 notes_txt (empty_store, zero_stats) entry_os))) =
     [[0x41], [0x7BA1, 0x7406, 0x786C, 0x9AD4, 0x8CC7, 0x6E90]] \<and>
   inserted_answers
     (snd (upsert_entry ascii_platform 0 ch1 notes_txt (empty_store, zero_stats) entry_os)) = 2"
proof -
  have a: "\<not> unanswered (surviving entry_os)"
    unfolding surviving_entry_os by (simp add: unanswered_def entry_os_def)
  have b: "find_question empty_store ch1 (entry_key entry_os) = None"
    by (simp add: find_question_def empty_store_def)
  have c: "surviving entry_os = [[0x41], [0x7BA1, 0x7406, 0x786C, 0x9AD4, 0x8CC7, 0x6E90]]"
    unfolding surviving_entry_os by (simp add: entry_os_def)
  have d: "answers empty_store = []" by (simp add: empty_store_def)
  from position_fidelity[OF fk_ok_empty_store a b, of ascii_platform 0 notes_txt zero_stats]
  show ?thesis
    unfolding Let_def c d using fk_ok_empty_store a b
    by (simp add: zero_stats_def c upt_rec)
qed

text \<open>
  Claim C4 (normalization collision). Two question texts with the same tokens, that
  is, texts that differ only in their whitespace layout, have the same normalized key.
  When both are imported into one chapter, one after the other, the second import adds
  no question row, inserts no question and counts one duplicate, and the key has one row
  in the chapter if it had none before (as many as before otherwise). Imported into two
  different chapters, neither of which has the key, they make two rows with different
  ids, each with its own text and chapter and the common key.
\<close>

theorem normalization_collision:
  assumes "tokens (question e1) = tokens (question e2)"
    and "\<not> unanswered (surviving e1)" and "\<not> unanswered (surviving e2)"
  shows "normalize_text (question e1) = normalize_text (question e2) \<and>
    entry_key e1 = entry_key e2 \<and>
    (let r1 = upsert_entries pf now1 s [e1] chapter source1;
         r2 = upsert_entries pf now2 (fst r1) [e2] chapter source2
     in questions (fst r2) = questions (fst r1) \<and>
        inserted_questions (snd r2) = 0 \<and> duplicates_skipped (snd r2) = 1 \<and>
        length (key_rows (fst r2) chapter (entry_key e1)) =
          max 1 (length (key_rows s chapter (entry_key e1)))) \<and>
    (chapter1 \<noteq> chapter2 \<and> find_question s chapter1 (entry_key e1) = None \<and>
     find_question s chapter2 (entry_key e2) = None \<longrightarrow>
     (let r1 = upsert_entries pf now1 s [e1] chapter1 source1;
          r2 = upsert_entries pf now2 (fst r1) [e2] chapter2 source2;
          row1 = new_question pf now1 s chapter1 source1 e1;
          row2 = new_question pf now2 (fst r1) chapter2 source2 e2
      in questions (fst r2) = questions s @ [row1, row2] \<and>
         inserted_questions (snd r1) = 1 \<and> inserted_questions (snd r2) = 1 \<and>
         duplicates_skipped (snd r2) = 0 \<and>
         q_chapter row1 = chapter1 \<and> q_chapter row2 = chapter2 \<and>
         q_text_norm row1 = q_text_norm row2 \<and> q_id row1 \<noteq> q_id row2 \<and>
         q_text row1 = strip (question e1) \<and> q_text row2 = strip (question e2)))"
proof -
  have norm: "normalize_text (question e1) = normalize_text (question e2)"
    using assms(1) by (simp add: normalize_text_tokens)
  have key: "entry_key e1 = entry_key e2"
    using assms(1) by (simp add: entry_key_tokens)
  have same: "questions (fst r2) = questions (fst r1) \<and>
        inserted_questions (snd r2) = 0 \<and> duplicates_skipped (snd r2) = 1 \<and>
        length (key_rows (fst r2) chapter (entry_key e1)) =
          max 1 (length (key_rows s chapter (entry_key e1)))"
    if r1: "r1 = upsert_entries pf now1 s [e1] chapter source1"
      and r2: "r2 = upsert_entries pf now2 (fst r1) [e2] chapter source2" for r1 r2
  proof -
    from upsert_entry_questions[OF assms(2), of pf now1 "chapter" source1 s zero_stats]
    have q1: "questions (fst r1) =
        (case find_question s chapter (entry_key e1) of
           None \<Rightarrow> questions s @ [new_question pf now1 s chapter source1 e1]
         | Some r \<Rightarrow> questions s)"
      by (simp add: r1 upsert_entries_single)
    have rows1: "length (key_rows (fst r1) chapter (entry_key e1)) =
        max 1 (length (key_rows s chapter (entry_key e1)))"
    proof (cases "find_question s chapter (entry_key e1)")
      case None
      then have "key_rows s chapter (entry_key e1) = []" by (simp add: find_question_None_iff)
      then show ?thesis
        by (simp add: key_rows_def q1 None new_question_fields)
    next
      case (Some r)
      then have "key_rows s chapter (entry_key e1) \<noteq> []"
        using find_question_None_iff[of s "chapter" "entry_key e1"] by simp
      then have "1 \<le> length (key_rows s chapter (entry_key e1))"
        by (cases "key_rows s chapter (entry_key e1)") simp_all
      then show ?thesis by (simp add: key_rows_def q1 Some max_def)
    qed
    then have "key_rows (fst r1) chapter (entry_key e2) \<noteq> []"
      unfolding key[symmetric] by (cases "key_rows (fst r1) chapter (entry_key e1)") simp_all
    then have found: "find_question (fst r1) chapter (entry_key e2) \<noteq> None"
      by (simp add: find_question_None_iff)
    from upsert_entry_questions[OF assms(3), of pf now2 "chapter" source2 "fst r1" zero_stats] found
    have "questions (fst r2) = questions (fst r1)" "inserted_questions (snd r2) = 0"
      "duplicates_skipped (snd r2) = 1"
      by (auto simp: r2 upsert_entries_single zero_stats_def)
    with rows1 show ?thesis by (simp add: key_rows_def)
  qed
  have diff: "questions (fst r2) = questions s @ [row1, row2] \<and>
         inserted_questions (snd r1) = 1 \<and> inserted_questions (snd r2) = 1 \<and>
         duplicates_skipped (snd r2) = 0 \<and>
         q_chapter row1 = chapter1 \<and> q_chapter row2 = chapter2 \<and>
         q_text_norm row1 = q_text_norm row2 \<and> q_id row1 \<noteq> q_id row2 \<and>
         q_text row1 = strip (question e1) \<and> q_text row2 = strip (question e2)"
    if ne: "chapter1 \<noteq> chapter2" and n1: "find_question s chapter1 (entry_key e1) = None"
      and n2: "find_question s chapter2 (entry_key e2) = None"
      and r1: "r1 = upsert_entries pf now1 s [e1] chapter1 source1"
      and r2: "r2 = upsert_entries pf now2 (fst r1) [e2] chapter2 source2"
      and row1: "row1 = new_question pf now1 s chapter1 source1 e1"
      and row2: "row2 = new_question pf now2 (fst r1) chapter2 source2 e2"
    for r1 r2 row1 row2
  proof -
    from upsert_entry_questions[OF assms(2), of pf now1 chapter1 source1 s zero_stats] n1
    have q1: "questions (fst r1) = questions s @ [row1]" and i1: "inserted_questions (snd r1) = 1"
      by (simp_all add: r1 row1 upsert_entries_single zero_stats_def)
    have n2': "find_question (fst r1) chapter2 (entry_key e2) = None"
      using n2 ne by (simp add: find_question_def q1 find_append_case row1 new_question_fields)
    from upsert_entry_questions[OF assms(3), of pf now2 chapter2 source2 "fst r1" zero_stats] n2'
    have q2: "questions (fst r2) = questions (fst r1) @ [row2]"
      and i2: "inserted_questions (snd r2) = 1" and d2: "duplicates_skipped (snd r2) = 0"
      by (simp_all add: r2 row2 upsert_entries_single zero_stats_def)
    have "q_id row1 \<in> set (map q_id (questions (fst r1)))" by (simp add: q1)
    moreover have "q_id row2 \<notin> set (map q_id (questions (fst r1)))"
      unfolding row2 new_question_fields by (rule next_rowid_fresh)
    ultimately have ids: "q_id row1 \<noteq> q_id row2" by metis
    from q1 q2 i1 i2 d2 ids key show ?thesis
      by (simp add: row1 row2 new_question_fields)
  qed
  from norm key same diff show ?thesis unfolding Let_def by blast
qed

text \<open>
  An instance of C4: two texts with different spaces, tabs and line breaks around the
  same two tokens.
\<close>

theorem normalization_collision_witness:
  "tokens (question entry_layout1) = tokens (question entry_layout2) \<and>
   question entry_layout1 \<noteq> question entry_layout2 \<and>
   \<not> unanswered (surviving entry_layout1) \<and> \<not> unanswered (surviving entry_layout2) \<and>
   ch1 \<noteq> ch2 \<and>
   find_question empty_store ch1 (entry_key entry_layout1) = None \<and>
   find_question empty_store ch2 (entry_key entry_layout2) = None \<and>
   normalize_text (question entry_layout1) = normalize_text (question entry_layout2) \<and>
   duplicates_skipped
     (snd (upsert_entries ascii_platform 1
        (fst (upsert_entries ascii_platform 0 empty_store [entry_layout1] ch1 notes_txt))
        [entry_layout2] ch1 notes_txt)) = 1 \<and>
   length (key_rows
     (fst (upsert_entries ascii_platform 1
        (fst (upsert_entries ascii_platform 0 empty_store [entry_layout1] ch1 notes_txt))
        [entry_layout2] ch1 notes_txt)) ch1 (entry_key entry_layout1)) = 1 \<and>
   inserted_questions
     (snd (upsert_entries ascii_platform 1
        (fst (upsert_entries ascii_platform 0 empty_store [entry_layout1] ch1 notes_txt))
        [entry_layout2] ch2 notes_txt)) = 1"
proof -
  have t: "tokens (question entry_layout1) = tokens (question entry_layout2)"
    by (simp add: tokens_layout)
  have d: "question entry_layout1 \<noteq> question entry_layout2"
    by (simp add: entry_layout1_def entry_layout2_def)
  have u1: "\<not> unanswered (surviving entry_layout1)"
    by (simp add: surviving_def unanswered_def UNANSWERED_def entry_layout1_def str_defs)
  have u2: "\<not> unanswered (surviving entry_layout2)"
    by (simp add: surviving_def unanswered_def UNANSWERED_def entry_layout2_def str_defs)
  have c: "ch1 \<noteq> ch2" by (simp add: ch1_def ch2_def)
  have f: "find_question empty_store ch1 (entry_key entry_layout1) = None"
    "find_question empty_store ch2 (entry_key entry_layout2) = None"
    by (simp_all add: find_question_def empty_store_def)
  have k: "key_rows empty_store ch1 (entry_key entry_layout1) = []"
    by (simp add: key_rows_def empty_store_def)
  note main = normalization_collision[OF t u1 u2, where pf = ascii_platform and ?now1.0 = 0
      and ?now2.0 = 1 and s = empty_store and ?chapter = ch1 and ?source1.0 = notes_txt
      and ?source2.0 = notes_txt and ?chapter1.0 = ch1 and ?chapter2.0 = ch2, unfolded Let_def]
  from main have n: "normalize_text (question entry_layout1) = normalize_text (question entry_layout2)"
    by blast
  from main have dup: "duplicates_skipped
     (snd (upsert_entries ascii_platform 1
        (fst (upsert_entries ascii_platform 0 empty_store [entry_layout1] ch1 notes_txt))
        [entry_layout2] ch1 notes_txt)) = 1"
    by blast
  from main have "length (key_rows
     (fst (upsert_entries ascii_platform 1
        (fst (upsert_entries ascii_platform 0 empty_store [entry_layout1] ch1 notes_txt))
        [entry_layout2] ch1 notes_txt)) ch1 (entry_key entry_layout1)) =
      max 1 (length (key_rows empty_store ch1 (entry_key entry_layout1)))"
    by blast
  then have one: "length (key_rows
     (fst (upsert_entries ascii_platform 1
        (fst (upsert_entries ascii_platform 0 empty_store [entry_layout1] ch1 notes_txt))
        [entry_layout2] ch1 notes_txt)) ch1 (entry_key entry_layout1)) = 1"
    unfolding k by simp
  from main c f have ins: "inserted_questions
     (snd (upsert_entries ascii_platform 1
        (fst (upsert_entries ascii_platform 0 empty_store [entry_layout1] ch1 notes_txt))
        [entry_layout2] ch2 notes_txt)) = 1"
    by blast
  from t d u1 u2 c f n dup one ins show ?thesis by blast
qed

text \<open>
  Claim C5 (unanswered filter). When the correct answers of an entry, each trimmed and
  the empty ones dropped, are no answer at all or the one answer \<open>UNANSWERED\<close>, the
  loop body leaves the store as it is (no question row, no answer row, the sequences
  untouched) and adds one to the unanswered counter and to no other counter.
\<close>

theorem unanswered_filter:
  assumes "surviving e = [] \<or> surviving e = [UNANSWERED]"
  shows "upsert_entry pf now chapter source_file (s, c) e =
           (s, c\<lparr>skipped_unanswered := skipped_unanswered c + 1\<rparr>)"
  using assms by (simp add: upsert_entry_unanswered unanswered_iff)

text \<open>
  An instance of C5: the second entry of the example.
\<close>

theorem unanswered_filter_witness:
  "surviving entry_paging = [UNANSWERED] \<and>
   upsert_entry ascii_platform 0 ch1 notes_txt (empty_store, zero_stats) entry_paging =
     (empty_store, zero_stats\<lparr>skipped_unanswered := 1\<rparr>)"
proof -
  have h: "surviving entry_paging = [UNANSWERED]"
    by (simp add: surviving_def entry_paging_def UNANSWERED_def str_defs)
  then have "surviving entry_paging = [] \<or> surviving entry_paging = [UNANSWERED]" by simp
  from unanswered_filter[OF this, of ascii_platform 0 ch1 notes_txt empty_store zero_stats] h
  show ?thesis by (simp add: zero_stats_def)
qed






text \<open>
  Claim C8 (byte-order mark). The code at the failing input: the example text behind a
  byte-order mark. The codec \<open>utf-8-sig\<close> of the upload route removes the mark; the
  codec \<open>utf-8\<close>, the default of the command line, keeps it, and so does the \<open>strip\<close>
  of the text field. The first line then does not start with the question marker, the
  first question is lost, and the counters are 0, 0, 1, 0 instead of 1, 0, 1, 2.
\<close>

theorem bom_not_stripped:
  "decode UTF8_SIG (BOM # example_text) = example_text \<and>
   decode UTF8 (BOM # example_text) = BOM # example_text \<and>
   text_content (BOM # example_text) = BOM # example_text \<and>
   parse_blocks example_text = [entry_os, entry_paging] \<and>
   parse_blocks (BOM # example_text) = [entry_paging] \<and>
   snd (import_file pf now empty_store UTF8 None (Path notes_txt) example_text) =
     \<lparr>inserted_questions = 1, duplicates_skipped = 0, skipped_unanswered = 1,
      inserted_answers = 2\<rparr> \<and>
   import_file pf now empty_store UTF8 None (Path notes_txt) (BOM # example_text) =
     (empty_store,
      \<lparr>inserted_questions = 0, duplicates_skipped = 0, skipped_unanswered = 1,
       inserted_answers = 0\<rparr>) \<and>
   web_import pf now empty_store ch1 notes_txt (text_content (BOM # example_text)) =
     (empty_store,
      Some \<lparr>inserted_questions = 0, duplicates_skipped = 0, skipped_unanswered = 1,
       inserted_answers = 0\<rparr>) \<and>
   snd (web_import pf now empty_store ch1 notes_txt (upload_content (BOM # example_text))) =
     Some \<lparr>inserted_questions = 1, duplicates_skipped = 0, skipped_unanswered = 1,
       inserted_answers = 2\<rparr>"
proof -
  have d: "decode UTF8_SIG (BOM # example_text) = example_text"
    "decode UTF8 (BOM # example_text) = BOM # example_text"
    "decode UTF8 example_text = example_text"
    by (simp_all add: decode_def)
  have t: "text_content (BOM # example_text) = BOM # example_text"
    by (simp add: text_content_def strip_bom_example)
  have ne: "example_text \<noteq> []" by (simp add: example_text_def example_lines_def)
  show ?thesis
    unfolding import_file_def web_import_def upload_content_def Let_def d t example_parse
      example_parse_bom upsert_example upsert_example_bom
    using ne by simp
qed

text \<open>
  Claim C9 (parser permissiveness), as amended. \<open>parse_blocks\<close> is a total function
  of the text. The questions of its entries are the question texts of the question lines
  of the text, in order, one entry for each question line. Lines before the first
  question line, marker lines included, have no effect. After a question line or a score
  line, a line without a marker that is separated from it only by lines without a marker
  has no effect. A your-answer or correct-answer line that the outer loop meets with an
  open entry starts a block that runs to the next line that ends it (or to the end of the
  text): the entry's list becomes the text after the marker and the lines of the block,
  each stripped, in order, the blank ones left out; when the block runs to the next
  question line or to the end of the text, the entry is in the output with that list. A
  line without a marker ends no block, so inside a block it is collected when it is not
  blank, and skipped when it is blank.
\<close>

theorem parser_permissive:
  "parse_blocks text = parse_loop (text_lines text) None [] \<and>
   map question (parse_blocks text) =
     map question_payload (filter is_question_line (text_lines text)) \<and>
   length (parse_blocks text) = length (filter is_question_line (text_lines text)) \<and>
   ((\<forall>l \<in> set pre. \<not> is_question_line l) \<longrightarrow>
      parse_loop (pre @ rest) None [] = parse_loop rest None []) \<and>
   ((is_question_line t \<or> is_score_line t) \<and> (\<forall>l \<in> set (mid @ [x]). \<not> marker_line l) \<longrightarrow>
      parse_loop (before @ t # mid @ x # after) cur es =
      parse_loop (before @ t # mid @ after) cur es) \<and>
   (is_correct_line tc \<and> (\<forall>l \<in> set cblock. \<not> correct_stop l) \<and>
    (crest = [] \<or> correct_stop (hd crest)) \<longrightarrow>
      parse_loop (tc # cblock @ crest) (Some e) es =
      parse_loop crest (Some (e\<lparr>correct := answer_lines (correct_payload tc # cblock)\<rparr>)) es) \<and>
   (is_your_line ty \<and> (\<forall>l \<in> set yblock. \<not> your_stop l) \<and>
    (yrest = [] \<or> your_stop (hd yrest)) \<longrightarrow>
      parse_loop (ty # yblock @ yrest) (Some e) es =
      parse_loop yrest (Some (e\<lparr>your := answer_lines (your_payload ty # yblock)\<rparr>)) es) \<and>
   (is_correct_line tc \<and> (\<forall>l \<in> set cblock. \<not> correct_stop l) \<and>
    (crest = [] \<or> is_question_line (hd crest)) \<longrightarrow>
      prefix (es @ [e\<lparr>correct := answer_lines (correct_payload tc # cblock)\<rparr>])
        (parse_loop (tc # cblock @ crest) (Some e) es)) \<and>
   (is_your_line ty \<and> (\<forall>l \<in> set yblock. \<not> your_stop l) \<and>
    (yrest = [] \<or> is_question_line (hd yrest)) \<longrightarrow>
      prefix (es @ [e\<lparr>your := answer_lines (your_payload ty # yblock)\<rparr>])
        (parse_loop (ty # yblock @ yrest) (Some e) es)) \<and>
   (\<not> marker_line x \<longrightarrow> \<not> your_stop x \<and> \<not> correct_stop x) \<and>
   (x \<in> set block \<and> strip x \<noteq> [] \<longrightarrow> strip x \<in> set (answer_lines (p # block))) \<and>
   (strip blank = [] \<longrightarrow> answer_lines (b1 @ blank # b2) = answer_lines (b1 @ b2))"
proof -
  have a: "parse_blocks text = parse_loop (text_lines text) None []"
    by (simp add: parse_blocks_def text_lines_def)
  have b: "map question (parse_blocks text) =
     map question_payload (filter is_question_line (text_lines text))"
    unfolding a by (simp add: parse_loop_questions)
  have c: "length (parse_blocks text) = length (filter is_question_line (text_lines text))"
    using arg_cong[OF b, of length] by simp
  have d: "(\<forall>l \<in> set pre. \<not> is_question_line l) \<longrightarrow>
      parse_loop (pre @ rest) None [] = parse_loop rest None []"
    by (auto intro: parse_loop_skip_closed)
  have e: "(is_question_line t \<or> is_score_line t) \<and> (\<forall>l \<in> set (mid @ [x]). \<not> marker_line l) \<longrightarrow>
      parse_loop (before @ t # mid @ x # after) cur es =
      parse_loop (before @ t # mid @ after) cur es"
    using parse_loop_ignores_plain[of t mid x before after cur es] by blast
  have f: "is_correct_line tc \<and> (\<forall>l \<in> set cblock. \<not> correct_stop l) \<and>
    (crest = [] \<or> correct_stop (hd crest)) \<longrightarrow>
      parse_loop (tc # cblock @ crest) (Some e) es =
      parse_loop crest (Some (e\<lparr>correct := answer_lines (correct_payload tc # cblock)\<rparr>)) es"
    using parse_loop_correct_block[of tc cblock crest e es] by blast
  have g: "is_your_line ty \<and> (\<forall>l \<in> set yblock. \<not> your_stop l) \<and>
    (yrest = [] \<or> your_stop (hd yrest)) \<longrightarrow>
      parse_loop (ty # yblock @ yrest) (Some e) es =
      parse_loop yrest (Some (e\<lparr>your := answer_lines (your_payload ty # yblock)\<rparr>)) es"
    using parse_loop_your_block[of ty yblock yrest e es] by blast
  have h: "is_correct_line tc \<and> (\<forall>l \<in> set cblock. \<not> correct_stop l) \<and>
    (crest = [] \<or> is_question_line (hd crest)) \<longrightarrow>
      prefix (es @ [e\<lparr>correct := answer_lines (correct_payload tc # cblock)\<rparr>])
        (parse_loop (tc # cblock @ crest) (Some e) es)"
    using parse_loop_correct_output[of tc cblock crest es e] by blast
  have i: "is_your_line ty \<and> (\<forall>l \<in> set yblock. \<not> your_stop l) \<and>
    (yrest = [] \<or> is_question_line (hd yrest)) \<longrightarrow>
      prefix (es @ [e\<lparr>your := answer_lines (your_payload ty # yblock)\<rparr>])
        (parse_loop (ty # yblock @ yrest) (Some e) es)"
    using parse_loop_your_output[of ty yblock yrest es e] by blast
  have j: "\<not> marker_line x \<longrightarrow> \<not> your_stop x \<and> \<not> correct_stop x"
    using marker_free_not_stop[of x] by blast
  have k: "x \<in> set block \<and> strip x \<noteq> [] \<longrightarrow> strip x \<in> set (answer_lines (p # block))"
    using answer_lines_member[of x block p] by blast
  have l: "strip blank = [] \<longrightarrow> answer_lines (b1 @ blank # b2) = answer_lines (b1 @ b2)"
    using answer_lines_blank[of blank b1 b2] by blast
  show ?thesis
    by (intro conjI) (fact a b c d e f g h i j k l)+
qed

text \<open>
  An instance of C9: two lines put before the first question line of the example, a line
  without a marker put right after it, and the blocks that the third and the second line
  of the example start when the fourth line and a blank line follow them.
\<close>

theorem parser_permissive_witness:
  "\<not> is_question_line (example_lines ! 2) \<and> \<not> is_question_line plain_line \<and>
   parse_loop ([example_lines ! 2, plain_line] @ example_lines) None [] =
     parse_loop example_lines None [] \<and>
   is_question_line (example_lines ! 0) \<and> \<not> marker_line plain_line \<and>
   parse_loop ([] @ example_lines ! 0 # [] @ plain_line # tl example_lines) None [] =
     parse_loop ([] @ example_lines ! 0 # [] @ tl example_lines) None [] \<and>
   length (parse_blocks example_text) = 2 \<and>
   is_correct_line (example_lines ! 2) \<and> is_your_line (example_lines ! 1) \<and>
   \<not> correct_stop plain_line \<and> \<not> your_stop plain_line \<and>
   \<not> correct_stop [] \<and> \<not> your_stop [] \<and>
   is_question_line (hd (drop 5 example_lines)) \<and>
   strip plain_line \<noteq> [] \<and> strip [] = [] \<and>
   parse_loop (example_lines ! 2 # [plain_line, []] @ drop 5 example_lines) (Some entry_paging) [] =
     parse_loop (drop 5 example_lines)
       (Some (entry_paging\<lparr>correct := [[0x41], plain_line]\<rparr>)) [] \<and>
   prefix ([] @ [entry_paging\<lparr>correct := [[0x41], plain_line]\<rparr>])
     (parse_loop (example_lines ! 2 # [plain_line, []] @ drop 5 example_lines)
        (Some entry_paging) []) \<and>
   prefix ([] @ [entry_paging\<lparr>your := [[0x41], plain_line]\<rparr>])
     (parse_loop (example_lines ! 1 # [plain_line, []] @ drop 5 example_lines)
        (Some entry_paging) []) \<and>
   strip plain_line \<in> set (answer_lines ([] # [plain_line, []])) \<and>
   answer_lines ([plain_line] @ [] # []) = answer_lines ([plain_line] @ [])"
proof -
  have h1: "\<forall>l \<in> set [example_lines ! 2, plain_line]. \<not> is_question_line l"
    by (simp add: is_question_line_def example_lines_def plain_line_def str_defs LABEL_Q_def)
  have h2: "is_question_line (example_lines ! 0)"
    by (simp add: is_question_line_def example_lines_def str_defs LABEL_Q_def)
  have h3: "\<forall>l \<in> set ([] @ [plain_line]). \<not> marker_line l"
    by (simp add: plain_line_no_marker)
  have n: "length (filter is_question_line (text_lines example_text)) = 2"
    unfolding text_lines_def example_lines_split
    by (simp add: is_question_line_def example_lines_def str_defs LABEL_Q_def)
  note facts = example_block_facts
  have s1: "\<not> your_stop plain_line \<and> \<not> correct_stop plain_line"
    using plain_line_no_marker by (rule marker_free_not_stop)
  have s2: "\<not> your_stop [] \<and> \<not> correct_stop []"
    using blank_no_marker by (rule marker_free_not_stop)
  have cb: "\<forall>l \<in> set [plain_line, []]. \<not> correct_stop l" using s1 s2 by simp
  have yb: "\<forall>l \<in> set [plain_line, []]. \<not> your_stop l" using s1 s2 by simp
  have cr: "drop 5 example_lines = [] \<or> correct_stop (hd (drop 5 example_lines))"
    using facts(3) by (simp add: correct_stop_def)
  have yr: "drop 5 example_lines = [] \<or> your_stop (hd (drop 5 example_lines))"
    using facts(3) by (simp add: your_stop_def)
  have qr: "drop 5 example_lines = [] \<or> is_question_line (hd (drop 5 example_lines))"
    using facts(3) by simp
  have mem: "plain_line \<in> set [plain_line, []]" by simp
  note main = parser_permissive[where ?text = example_text
      and pre = "[example_lines ! 2, plain_line]" and rest = example_lines
      and t = "example_lines ! 0" and mid = "[]" and x = plain_line and before = "[]"
      and after = "tl example_lines" and cur = None and es = "[]"
      and tc = "example_lines ! 2" and cblock = "[plain_line, []]"
      and crest = "drop 5 example_lines" and ty = "example_lines ! 1"
      and yblock = "[plain_line, []]" and yrest = "drop 5 example_lines"
      and e = entry_paging and block = "[plain_line, []]" and p = "[]" and blank = "[]"
      and ?b1.0 = "[plain_line]" and ?b2.0 = "[]"]
  from main h1 have c1: "parse_loop ([example_lines ! 2, plain_line] @ example_lines) None [] =
     parse_loop example_lines None []" by blast
  from main h2 h3 have c2:
    "parse_loop ([] @ example_lines ! 0 # [] @ plain_line # tl example_lines) None [] =
     parse_loop ([] @ example_lines ! 0 # [] @ tl example_lines) None []" by blast
  from main have "length (parse_blocks example_text) =
      length (filter is_question_line (text_lines example_text))" by blast
  with n have c3: "length (parse_blocks example_text) = 2" by simp
  from main facts(1) cb cr have
    "parse_loop (example_lines ! 2 # [plain_line, []] @ drop 5 example_lines) (Some entry_paging) [] =
     parse_loop (drop 5 example_lines)
       (Some (entry_paging\<lparr>correct :=
          answer_lines (correct_payload (example_lines ! 2) # [plain_line, []])\<rparr>)) []"
    by blast
  then have c4:
    "parse_loop (example_lines ! 2 # [plain_line, []] @ drop 5 example_lines) (Some entry_paging) [] =
     parse_loop (drop 5 example_lines)
       (Some (entry_paging\<lparr>correct := [[0x41], plain_line]\<rparr>)) []"
    unfolding facts(7) .
  from main facts(1) cb qr have
    "prefix ([] @ [entry_paging\<lparr>correct :=
        answer_lines (correct_payload (example_lines ! 2) # [plain_line, []])\<rparr>])
     (parse_loop (example_lines ! 2 # [plain_line, []] @ drop 5 example_lines)
        (Some entry_paging) [])"
    by blast
  then have c5: "prefix ([] @ [entry_paging\<lparr>correct := [[0x41], plain_line]\<rparr>])
     (parse_loop (example_lines ! 2 # [plain_line, []] @ drop 5 example_lines)
        (Some entry_paging) [])"
    unfolding facts(7) .
  from main facts(2) yb qr have
    "prefix ([] @ [entry_paging\<lparr>your :=
        answer_lines (your_payload (example_lines ! 1) # [plain_line, []])\<rparr>])
     (parse_loop (example_lines ! 1 # [plain_line, []] @ drop 5 example_lines)
        (Some entry_paging) [])"
    by blast
  then have c6: "prefix ([] @ [entry_paging\<lparr>your := [[0x41], plain_line]\<rparr>])
     (parse_loop (example_lines ! 1 # [plain_line, []] @ drop 5 example_lines)
        (Some entry_paging) [])"
    unfolding facts(8) .
  from main mem facts(5) have c7: "strip plain_line \<in> set (answer_lines ([] # [plain_line, []]))"
    by blast
  from main facts(6) have c8:
    "answer_lines ([plain_line] @ [] # []) = answer_lines ([plain_line] @ [])" by blast
  have q1: "\<not> is_question_line (example_lines ! 2)" "\<not> is_question_line plain_line"
    using h1 by simp_all
  show ?thesis
    by (intro conjI)
       (fact q1 c1 h2 plain_line_no_marker c2 c3 facts(1) facts(2) s1[THEN conjunct2]
          s1[THEN conjunct1] s2[THEN conjunct2] s2[THEN conjunct1] facts(3) facts(5) facts(6)
          c4 c5 c6 c7 c8)+
qed

text \<open>
  Claim C9 as stated fails for a line without a marker inside a block of correct
  answers: the fourth line of the example has no marker, and without it the first entry
  has one correct answer instead of two.
\<close>

theorem plain_line_counterexample:
  "example_lines ! 3 = plain_line \<and> \<not> marker_line plain_line \<and>
   correct (hd (parse_blocks example_text)) = [[0x41], plain_line] \<and>
   correct (hd (parse_blocks (join_nl (take 3 example_lines @ drop 4 example_lines)))) = [[0x41]] \<and>
   parse_blocks example_text \<noteq>
     parse_blocks (join_nl (take 3 example_lines @ drop 4 example_lines))"
proof -
  have "correct (hd (parse_blocks example_text)) = [[0x41], plain_line]"
    unfolding example_parse by (simp add: entry_os_def plain_line_def)
  moreover have
    "correct (hd (parse_blocks (join_nl (take 3 example_lines @ drop 4 example_lines)))) = [[0x41]]"
    unfolding example_cut_parse by simp
  moreover have "parse_blocks example_text \<noteq>
     parse_blocks (join_nl (take 3 example_lines @ drop 4 example_lines))"
    unfolding example_parse example_cut_parse by (simp add: entry_os_def)
  ultimately show ?thesis
    using example_lines_nth plain_line_no_marker by blast
qed

text \<open>
  Claim C10 (the user's answers do not reach the store). Two batches of entries that
  agree on every question and every list of correct answers, whatever their lists
  \<open>your\<close> are, leave the same store and return the same four counters. No row of
  either table has a column for the user's answers.
\<close>

theorem your_answers_irrelevant:
  assumes "map question es1 = map question es2" and "map correct es1 = map correct es2"
  shows "upsert_entries pf now s es1 chapter source_file =
         upsert_entries pf now s es2 chapter source_file"
proof -
  have len: "length es1 = length es2"
    using assms(1) by (rule map_eq_imp_length_eq)
  have "upsert_loop pf now chapter source_file es1 sc =
        upsert_loop pf now chapter source_file es2 sc" for sc
    using len assms
  proof (induction es1 es2 arbitrary: sc rule: list_induct2)
    case Nil
    then show ?case by simp
  next
    case (Cons e1 es1 e2 es2)
    from Cons.prems have "question e1 = question e2" and "correct e1 = correct e2"
      by simp_all
    then have "upsert_entry pf now chapter source_file sc e1 =
               upsert_entry pf now chapter source_file sc e2"
      by (rule upsert_entry_cong)
    moreover from Cons.prems have "map question es1 = map question es2"
      and "map correct es1 = map correct es2" by simp_all
    ultimately show ?case using Cons.IH by simp
  qed
  then show ?thesis by (simp add: upsert_entries_def)
qed

text \<open>
  An instance of C10: the first entry of the example with and without the user's
  answer.
\<close>

theorem your_answers_irrelevant_witness:
  "map question [entry_os] = map question [entry_os\<lparr>your := []\<rparr>] \<and>
   map correct [entry_os] = map correct [entry_os\<lparr>your := []\<rparr>] \<and>
   your entry_os \<noteq> your (entry_os\<lparr>your := []\<rparr>) \<and>
   upsert_entries ascii_platform 0 empty_store [entry_os] ch1 notes_txt =
   upsert_entries ascii_platform 0 empty_store [entry_os\<lparr>your := []\<rparr>] ch1 notes_txt \<and>
   inserted_answers (snd (upsert_entries ascii_platform 0 empty_store [entry_os] ch1 notes_txt)) = 2"
proof -
  have a: "map question [entry_os] = map question [entry_os\<lparr>your := []\<rparr>]" by simp
  have b: "map correct [entry_os] = map correct [entry_os\<lparr>your := []\<rparr>]" by simp
  have c: "your entry_os \<noteq> your (entry_os\<lparr>your := []\<rparr>)" by (simp add: entry_os_def)
  have d: "inserted_answers (snd (upsert_entries ascii_platform 0 empty_store [entry_os] ch1 notes_txt)) = 2"
    by (simp add: store_defs entry_os_def str_defs)
  from your_answers_irrelevant[OF a b, of ascii_platform 0 empty_store ch1 notes_txt] a b c d
  show ?thesis by blast
qed

end
